theory Spec2Isabelle
  imports Complex_Main "HOL-Library.Word" "HOL-Library.AList" "HOL-Library.Multiset"
begin

unbundle bit_operations_syntax

section \<open>Data model\<close>

text \<open>
  The program is the interning variant of the aggregator (the source file that declares
  \<open>Intern\<close>, \<open>GetOrAdd\<close> and \<open>parseChunkIDs\<close>). Go's \<open>byte\<close>, \<open>int32\<close>, \<open>int64\<close> and
  \<open>uint64\<close> are words of that width; slice indices and lengths (Go \<open>int\<close>) never leave
  \<open>0 .. len(data)\<close> and are natural numbers. A \<open>[]byte\<close> and a Go \<open>string\<close> are both
  byte lists. A run-time panic is a value of type \<open>panic\<close>.
\<close>

type_synonym byte = "8 word"
type_synonym int32 = "32 word"
type_synonym int64 = "64 word"
type_synonym uint64 = "64 word"

datatype panic = IndexOutOfRange | SliceBoundsOutOfRange | IntegerDivideByZero | InputAccessError

text \<open>\<open>type Stat struct { min, max int32; sum, count int64 }\<close>, all in tenths.\<close>

record Stat =
  min_stat :: int32
  max_stat :: int32
  sum_stat :: int64
  count_stat :: int64

text \<open>
  A \<open>map[int32]Stat\<close> is an association list with distinct keys: the program ranges over
  its maps, so the entries must be enumerable. \<open>map_of\<close> is the lookup, \<open>AList.update\<close>
  the assignment \<open>m[k] = v\<close>.
\<close>

type_synonym statmap = "(int32 \<times> Stat) list"

text \<open>
  \<open>type Intern struct { shards [256]internShard; names []string; namesMu sync.Mutex }\<close>.
  A shard is its map \<open>m map[uint64][]int32\<close>; the fixed array of 256 shards is a function
  of the shard index. The locks are not data of the model: \<open>GetOrAdd\<close> below is the call
  run from its first line to its last, and its three locked sections are given after it
  for calls that come from several goroutines.
\<close>

type_synonym internShard = "uint64 \<rightharpoonup> int32 list"

record Intern =
  shards :: "nat \<Rightarrow> internShard"
  names :: "byte list list"

definition newIntern :: Intern where
  "newIntern = \<lparr>shards = (\<lambda>i. Map.empty), names = []\<rparr>"

section \<open>Key interner\<close>

text \<open>\<open>buf[lo:hi]\<close>; Go panics unless \<open>lo \<le> hi \<le> len(buf)\<close>.\<close>

definition slice :: "byte list \<Rightarrow> nat \<Rightarrow> nat \<Rightarrow> panic + byte list" where
  "slice buf lo hi =
     (if lo \<le> hi \<and> hi \<le> length buf then Inr (take (hi - lo) (drop lo buf))
      else Inl SliceBoundsOutOfRange)"

function equalSB_from :: "byte list \<Rightarrow> byte list \<Rightarrow> nat \<Rightarrow> bool" where
  "equalSB_from s b i =
     (if i < length b then
        (if s ! i \<noteq> b ! i then False else equalSB_from s b (i + 1))
      else True)"
  by pat_completeness auto
termination
  by (relation "measure (\<lambda>(s, b, i). length b - i)") auto

definition equalSB :: "byte list \<Rightarrow> byte list \<Rightarrow> bool" where
  "equalSB s b = (if length s \<noteq> length b then False else equalSB_from s b 0)"

text \<open>FNV-1a over 64 bits; multiplication wraps.\<close>

definition fnv1a64 :: "byte list \<Rightarrow> uint64" where
  "fnv1a64 b = fold (\<lambda>c h. (h XOR ucast c) * 1099511628211) b 1469598103934665603"

text \<open>
  The read path of \<open>GetOrAdd\<close>: \<open>for _, id := range ids { if equalSB(in.names[id], b) {
  return id } }\<close>. Indexing \<open>in.names\<close> with a negative or too large \<open>id\<close> panics.
\<close>

fun find_id :: "byte list list \<Rightarrow> int32 list \<Rightarrow> byte list \<Rightarrow> panic + int32 option" where
  "find_id nms [] b = Inr None"
| "find_id nms (ident # ids) b =
     (if 0 \<le> sint ident \<and> nat (sint ident) < length nms then
        (if equalSB (nms ! nat (sint ident)) b then Inr (Some ident) else find_id nms ids b)
      else Inl IndexOutOfRange)"

definition GetOrAdd :: "Intern \<Rightarrow> byte list \<Rightarrow> panic + (int32 \<times> Intern)" where
  "GetOrAdd intern b =
     (let h = fnv1a64 b;
          sh = unat (h AND 255);
          ids = (case shards intern sh h of None \<Rightarrow> [] | Some l \<Rightarrow> l)
      in case find_id (names intern) ids b of
           Inl e \<Rightarrow> Inl e
         | Inr (Some ident) \<Rightarrow> Inr (ident, intern)
         | Inr None \<Rightarrow>
             (let ident = (word_of_nat (length (names intern)) :: int32);
                  nms = names intern @ [b]
              in Inr (ident,
                      \<lparr>shards = (shards intern)(sh := (shards intern sh)(h \<mapsto> ids @ [ident])),
                       names = nms\<rparr>)))"

definition Name :: "Intern \<Rightarrow> int32 \<Rightarrow> panic + byte list" where
  "Name intern ident =
     (if 0 \<le> sint ident \<and> nat (sint ident) < length (names intern)
      then Inr (names intern ! nat (sint ident)) else Inl IndexOutOfRange)"

text \<open>
  \<open>GetOrAdd\<close> holds no lock from its first line to its last. It has three sections, and
  another goroutine can run between any two of them:
  \<^item> the read path: \<open>ids := sh.m[h]\<close> under \<open>sh.mu.RLock()\<close>, then the loop over that
    snapshot of \<open>ids\<close>; it returns the identifier found, if any, and the snapshot;
  \<^item> the registration of the name under \<open>in.namesMu\<close>: \<open>id := int32(len(in.names));
    in.names = append(in.names, s)\<close>;
  \<^item> the write into the shard under \<open>sh.mu.Lock()\<close>: \<open>sh.m[h] = append(ids, id)\<close>, with
    the \<open>ids\<close> read in the first section.
\<close>

definition readPath :: "Intern \<Rightarrow> byte list \<Rightarrow> panic + (int32 option \<times> int32 list)" where
  "readPath intern b =
     (let h = fnv1a64 b;
          sh = unat (h AND 255);
          ids = (case shards intern sh h of None \<Rightarrow> [] | Some l \<Rightarrow> l)
      in case find_id (names intern) ids b of
           Inl e \<Rightarrow> Inl e
         | Inr found \<Rightarrow> Inr (found, ids))"

definition registerName :: "Intern \<Rightarrow> byte list \<Rightarrow> int32 \<times> Intern" where
  "registerName intern b =
     (word_of_nat (length (names intern)),
      \<lparr>shards = shards intern, names = names intern @ [b]\<rparr>)"

definition writeShard :: "Intern \<Rightarrow> byte list \<Rightarrow> int32 list \<Rightarrow> int32 \<Rightarrow> Intern" where
  "writeShard intern b ids ident =
     (let h = fnv1a64 b;
          sh = unat (h AND 255)
      in \<lparr>shards = (shards intern)(sh := (shards intern sh)(h \<mapsto> ids @ [ident])),
          names = names intern\<rparr>)"

text \<open>
  Two goroutines \<open>A\<close> and \<open>B\<close> call \<open>GetOrAdd\<close> on the same interner, with keys \<open>a\<close> and
  \<open>b\<close>, and are scheduled so that both run the read path before either registers:
  read \<open>A\<close>, read \<open>B\<close>, register \<open>A\<close>, register \<open>B\<close>, write \<open>A\<close>, write \<open>B\<close>. A goroutine
  that finds its key on the read path returns there. The result is the identifier
  returned to \<open>A\<close>, the one returned to \<open>B\<close>, and the interner left behind.
\<close>

definition raceGetOrAdd ::
  "Intern \<Rightarrow> byte list \<Rightarrow> byte list \<Rightarrow> panic + (int32 \<times> int32 \<times> Intern)" where
  "raceGetOrAdd intern a b =
     (case readPath intern a of
        Inl e \<Rightarrow> Inl e
      | Inr (foundA, idsA) \<Rightarrow>
          (case readPath intern b of
             Inl e \<Rightarrow> Inl e
           | Inr (foundB, idsB) \<Rightarrow>
               (let (idA, in1) = (case foundA of
                                    Some x \<Rightarrow> (x, intern)
                                  | None \<Rightarrow> registerName intern a);
                    (idB, in2) = (case foundB of
                                    Some x \<Rightarrow> (x, in1)
                                  | None \<Rightarrow> registerName in1 b);
                    in3 = (case foundA of Some x \<Rightarrow> in2 | None \<Rightarrow> writeShard in2 a idsA idA);
                    in4 = (case foundB of Some x \<Rightarrow> in3 | None \<Rightarrow> writeShard in3 b idsB idB)
                in Inr (idA, idB, in4))))"

text \<open>
  A run of the interner: \<open>GetOrAdd\<close> is called on one key after the other, and the
  identifiers are kept in the order of the calls.
\<close>

fun internAll :: "Intern \<Rightarrow> byte list list \<Rightarrow> panic + (int32 list \<times> Intern)" where
  "internAll it [] = Inr ([], it)"
| "internAll it (b # bs) =
     (case GetOrAdd it b of
        Inl e \<Rightarrow> Inl e
      | Inr (x, it') \<Rightarrow>
          (case internAll it' bs of
             Inl e \<Rightarrow> Inl e
           | Inr (xs, it'') \<Rightarrow> Inr (x # xs, it'')))"

section \<open>Line scanner, value parser and partition aggregator\<close>

text \<open>
  The inner loop of \<open>parseChunkIDs\<close> that looks for the semicolon. It returns \<open>semi\<close>
  (\<open>None\<close> for \<open>-1\<close>), the index after it and \<open>lineStart\<close>, which moves past every line
  feed met before a semicolon.
\<close>

function findSemi :: "byte list \<Rightarrow> nat \<Rightarrow> nat \<Rightarrow> nat option \<times> nat \<times> nat" where
  "findSemi buf i lineStart =
     (if i < length buf then
        (let b = buf ! i in
         if b = 59 then (Some i, i + 1, lineStart)
         else if b = 10 then findSemi buf (i + 1) (i + 1)
         else findSemi buf (i + 1) lineStart)
      else (None, i, lineStart))"
  by pat_completeness auto
termination
  by (relation "measure (\<lambda>(buf, i, lineStart). length buf - i)") auto

text \<open>\<open>for i < n { c := buf[i]; if c >= '0' && c <= '9' { intPart = intPart*10 + int32(c-'0'); i++ } else { break } }\<close>\<close>

function intPartLoop :: "byte list \<Rightarrow> nat \<Rightarrow> int32 \<Rightarrow> int32 \<times> nat" where
  "intPartLoop buf i intPart =
     (if i < length buf then
        (let c = buf ! i in
         if 48 \<le> c \<and> c \<le> 57 then intPartLoop buf (i + 1) (intPart * 10 + ucast (c - 48))
         else (intPart, i))
      else (intPart, i))"
  by pat_completeness auto
termination
  by (relation "measure (\<lambda>(buf, i, intPart). length buf - i)") auto

text \<open>\<open>for i < n && buf[i] != '\n' { i++ }\<close>\<close>

function skipLine :: "byte list \<Rightarrow> nat \<Rightarrow> nat" where
  "skipLine buf i = (if i < length buf \<and> buf ! i \<noteq> 10 then skipLine buf (i + 1) else i)"
  by pat_completeness auto
termination
  by (relation "measure (\<lambda>(buf, i). length buf - i)") auto

text \<open>
  The temperature parser of \<open>parseChunkIDs\<close>, from the byte after the semicolon to the
  byte after the line feed, one definition for each statement of the source:
  \<^item> \<open>sign := int32(1); if i < n { switch buf[i] { case '-': sign = -1; i++; case '+': i++ } }\<close>
  \<^item> the digit loop \<open>intPartLoop\<close> above, started with \<open>intPart = 0\<close>
  \<^item> \<open>if i < n && buf[i] == '.' { i++ }\<close>
  \<^item> \<open>if i < n { c := buf[i]; if c >= '0' && c <= '9' { decDigit = int32(c - '0'); i++ } }\<close>
  \<^item> the loop \<open>skipLine\<close> above, then \<open>if i < n && buf[i] == '\n' { i++ }\<close>
  \<^item> \<open>tenth := sign * (intPart*10 + decDigit)\<close>
  All arithmetic is \<open>int32\<close> and wraps.
\<close>

definition parseSign :: "byte list \<Rightarrow> nat \<Rightarrow> int32 \<times> nat" where
  "parseSign buf i =
     (if i < length buf then
        (if buf ! i = 45 then (- 1, i + 1)
         else if buf ! i = 43 then (1, i + 1)
         else (1, i))
      else (1, i))"

definition skipPoint :: "byte list \<Rightarrow> nat \<Rightarrow> nat" where
  "skipPoint buf i = (if i < length buf \<and> buf ! i = 46 then i + 1 else i)"

definition parseDecDigit :: "byte list \<Rightarrow> nat \<Rightarrow> int32 \<times> nat" where
  "parseDecDigit buf i =
     (if i < length buf then
        (let c = buf ! i in
         if 48 \<le> c \<and> c \<le> 57 then (ucast (c - 48), i + 1) else (0, i))
      else (0, i))"

definition skipNewline :: "byte list \<Rightarrow> nat \<Rightarrow> nat" where
  "skipNewline buf i = (if i < length buf \<and> buf ! i = 10 then i + 1 else i)"

definition parseTemp :: "byte list \<Rightarrow> nat \<Rightarrow> int32 \<times> nat" where
  "parseTemp buf i =
     (let (sign, i1) = parseSign buf i;
          (intPart, i2) = intPartLoop buf i1 0;
          i3 = skipPoint buf i2;
          (decDigit, i4) = parseDecDigit buf i3;
          i5 = skipNewline buf (skipLine buf i4)
      in (sign * (intPart * 10 + decDigit), i5))"

text \<open>The update of the local map at the end of each iteration of \<open>parseChunkIDs\<close>.\<close>

definition record_temp :: "statmap \<Rightarrow> int32 \<Rightarrow> int32 \<Rightarrow> statmap" where
  "record_temp m cityID tenth =
     (case map_of m cityID of
        Some st \<Rightarrow>
          AList.update cityID
            \<lparr>min_stat = (if tenth <s min_stat st then tenth else min_stat st),
             max_stat = (if max_stat st <s tenth then tenth else max_stat st),
             sum_stat = sum_stat st + scast tenth,
             count_stat = count_stat st + 1\<rparr> m
      | None \<Rightarrow>
          AList.update cityID
            \<lparr>min_stat = tenth, max_stat = tenth, sum_stat = scast tenth, count_stat = 1\<rparr> m)"

declare equalSB_from.simps [simp del] findSemi.simps [simp del] intPartLoop.simps [simp del]
  skipLine.simps [simp del]

lemma findSemi_index:
  "findSemi buf i ls = (Some semi, i1, ls') \<Longrightarrow> i \<le> semi \<and> i1 = semi + 1 \<and> semi < length buf"
proof (induction buf i ls rule: findSemi.induct)
  case (1 buf i lineStart)
  from "1.prems" show ?case
    apply (subst (asm) findSemi.simps)
    apply (simp only: Let_def split: if_splits)
    using "1.IH" apply auto
    done
qed

lemma intPartLoop_index: "intPartLoop buf i a = (v, i') \<Longrightarrow> i \<le> i'"
proof (induction buf i a rule: intPartLoop.induct)
  case (1 buf i intPart)
  from "1.prems" show ?case
    apply (subst (asm) intPartLoop.simps)
    apply (simp only: Let_def split: if_splits)
    using "1.IH" apply auto
    done
qed

lemma skipLine_index: "i \<le> skipLine buf i"
proof (induction buf i rule: skipLine.induct)
  case (1 buf i)
  then show ?case
    by (subst skipLine.simps) auto
qed

lemma parseSign_index: "parseSign buf i = (v, i') \<Longrightarrow> i \<le> i'"
  by (auto simp: parseSign_def split: if_splits)

lemma parseDecDigit_index: "parseDecDigit buf i = (v, i') \<Longrightarrow> i \<le> i'"
  by (auto simp: parseDecDigit_def Let_def split: if_splits)

lemma skipPoint_index: "i \<le> skipPoint buf i"
  by (simp add: skipPoint_def)

lemma skipNewline_index: "i \<le> skipNewline buf i"
  by (simp add: skipNewline_def)

lemma parseTemp_index:
  assumes "parseTemp buf i = (v, i')"
  shows "i \<le> i'"
proof -
  obtain sg i1 where s1: "parseSign buf i = (sg, i1)" by fastforce
  obtain ip i2 where s2: "intPartLoop buf i1 0 = (ip, i2)" by fastforce
  obtain dd i4 where s4: "parseDecDigit buf (skipPoint buf i2) = (dd, i4)" by fastforce
  have e: "i' = skipNewline buf (skipLine buf i4)"
    using assms by (simp add: parseTemp_def Let_def s1 s2 s4)
  have "i \<le> i1" using s1 by (rule parseSign_index)
  also have "i1 \<le> i2" using s2 by (rule intPartLoop_index)
  also have "i2 \<le> skipPoint buf i2" by (rule skipPoint_index)
  also have "skipPoint buf i2 \<le> i4" using s4 by (rule parseDecDigit_index)
  also have "i4 \<le> skipLine buf i4" by (rule skipLine_index)
  also have "skipLine buf i4 \<le> i'" unfolding e by (rule skipNewline_index)
  finally show ?thesis .
qed

text \<open>
  \<open>parseChunkIDs\<close>: the outer loop \<open>for i < n\<close>, from index \<open>i\<close>, with the local map and
  the interner passed through. \<open>if semi < 0 { break }\<close> ends the scan. The key is
  \<open>buf[lineStart:semi]\<close>.
\<close>

function parseChunkIDs_from ::
  "byte list \<Rightarrow> nat \<Rightarrow> statmap \<Rightarrow> Intern \<Rightarrow> panic + (statmap \<times> Intern)" where
  "parseChunkIDs_from buf i m intern =
     (if i < length buf then
        (case findSemi buf i i of
           (None, i1, lineStart) \<Rightarrow> Inr (m, intern)
         | (Some semi, i1, lineStart) \<Rightarrow>
             (case parseTemp buf i1 of (tenth, i2) \<Rightarrow>
                (case slice buf lineStart semi of
                   Inl e \<Rightarrow> Inl e
                 | Inr key \<Rightarrow>
                     (case GetOrAdd intern key of
                        Inl e \<Rightarrow> Inl e
                      | Inr (cityID, intern') \<Rightarrow>
                          parseChunkIDs_from buf i2 (record_temp m cityID tenth) intern'))))
      else Inr (m, intern))"
  by pat_completeness auto
termination
proof (relation "measure (\<lambda>(buf, i, m, intern). length buf - i)", goal_cases)
  case 1
  show ?case by simp
next
  case (2 buf i m intern x1 x2 semi i1 lineStart tenth i2 key y cityID intern')
  have "i \<le> semi \<and> i1 = semi + 1 \<and> semi < length buf"
    using 2 by (intro findSemi_index [of buf i i semi i1 lineStart]) simp
  moreover have "i1 \<le> i2"
    using 2 by (intro parseTemp_index [of buf i1 tenth i2]) simp
  ultimately show ?case by simp arith
qed

declare parseChunkIDs_from.simps [simp del]

definition parseChunkIDs :: "byte list \<Rightarrow> statmap \<Rightarrow> Intern \<Rightarrow> panic + (statmap \<times> Intern)" where
  "parseChunkIDs buf m intern = parseChunkIDs_from buf 0 m intern"

section \<open>Partitioner\<close>

text \<open>
  The body of the dispatch loop of \<open>main\<close> for worker \<open>i\<close>. The bound of the first loop
  is \<open>end\<close>, not \<open>len(data)\<close>, so the index check of \<open>data[start]\<close> is written out.
  \<^item> \<open>for start < end && data[start] != '\n' { start++ }\<close> is \<open>alignStart\<close>;
  \<^item> \<open>if start < end { start++ }\<close> is \<open>stepOver\<close>;
  \<^item> \<open>for end < len(data) && data[end] != '\n' { end++ }\<close> is \<open>alignEnd\<close>.
\<close>

function alignStart :: "byte list \<Rightarrow> nat \<Rightarrow> nat \<Rightarrow> panic + nat" where
  "alignStart data start end' =
     (if start < end' then
        (if start < length data then
           (if data ! start \<noteq> 10 then alignStart data (start + 1) end' else Inr start)
         else Inl IndexOutOfRange)
      else Inr start)"
  by pat_completeness auto
termination
  by (relation "measure (\<lambda>(data, start, end'). end' - start)") auto

definition stepOver :: "nat \<Rightarrow> nat \<Rightarrow> nat" where
  "stepOver start end' = (if start < end' then start + 1 else start)"

function alignEnd :: "byte list \<Rightarrow> nat \<Rightarrow> nat" where
  "alignEnd data end' =
     (if end' < length data \<and> data ! end' \<noteq> 10 then alignEnd data (end' + 1) else end')"
  by pat_completeness auto
termination
  by (relation "measure (\<lambda>(data, end'). length data - end')") auto

declare alignStart.simps [simp del] alignEnd.simps [simp del]

text \<open>
  The range \<open>(start, end)\<close> handed to worker \<open>i\<close> of \<open>workers\<close>:
  \<open>chunk := len(data) / workers; start := i * chunk; end := start + chunk;
  if i == workers-1 { end = len(data) }\<close>, then the two alignments.
\<close>

definition chunkBounds :: "byte list \<Rightarrow> nat \<Rightarrow> nat \<Rightarrow> panic + (nat \<times> nat)" where
  "chunkBounds data workers i =
     (let chunk = length data div workers;
          start = i * chunk;
          end' = (if i = workers - 1 then length data else start + chunk)
      in case (if i > 0 then
                 (case alignStart data start end' of
                    Inl e \<Rightarrow> Inl e
                  | Inr start' \<Rightarrow> Inr (stepOver start' end'))
               else Inr start) of
           Inl e \<Rightarrow> Inl e
         | Inr start' \<Rightarrow>
             Inr (start', if i < workers - 1 then alignEnd data end' else end'))"

text \<open>
  The slice \<open>data[s:e]\<close> that worker \<open>i\<close> receives, and the slices of all workers in
  the order of their index. The first panic ends the run.
\<close>

definition chunkSlice :: "byte list \<Rightarrow> nat \<Rightarrow> nat \<Rightarrow> panic + byte list" where
  "chunkSlice data workers i =
     (case chunkBounds data workers i of
        Inl e \<Rightarrow> Inl e
      | Inr (s, e) \<Rightarrow> slice data s e)"

fun collect :: "(panic + 'a) list \<Rightarrow> panic + 'a list" where
  "collect [] = Inr []"
| "collect (r # rs) =
     (case r of
        Inl e \<Rightarrow> Inl e
      | Inr x \<Rightarrow> (case collect rs of Inl e \<Rightarrow> Inl e | Inr xs \<Rightarrow> Inr (x # xs)))"

definition partitions :: "byte list \<Rightarrow> nat \<Rightarrow> panic + byte list list" where
  "partitions data workers = collect (map (chunkSlice data workers) [0..<workers])"

section \<open>Workers\<close>

text \<open>
  Each worker parses its slice into a fresh map \<open>locals[idx]\<close>, sharing the interner.
  The goroutines are run one after the other in the order of their index.
\<close>

fun runWorkers :: "byte list list \<Rightarrow> Intern \<Rightarrow> panic + (statmap list \<times> Intern)" where
  "runWorkers [] intern = Inr ([], intern)"
| "runWorkers (buf # bufs) intern =
     (case parseChunkIDs buf [] intern of
        Inl e \<Rightarrow> Inl e
      | Inr (m, intern') \<Rightarrow>
          (case runWorkers bufs intern' of
             Inl e \<Rightarrow> Inl e
           | Inr (locals, intern'') \<Rightarrow> Inr (m # locals, intern'')))"

section \<open>Merge reducer\<close>

text \<open>
  The body of the merge loop for one entry \<open>(id, st)\<close> of a local map:
  \<open>if g, ok := global[id]; !ok { global[id] = st } else { if st.min < g.min { g.min = st.min };
  if st.max > g.max { g.max = st.max }; g.sum += st.sum; g.count += st.count; global[id] = g }\<close>.
\<close>

definition combine :: "Stat \<Rightarrow> Stat \<Rightarrow> Stat" where
  "combine g st =
     \<lparr>min_stat = (if min_stat st <s min_stat g then min_stat st else min_stat g),
      max_stat = (if max_stat g <s max_stat st then max_stat st else max_stat g),
      sum_stat = sum_stat g + sum_stat st,
      count_stat = count_stat g + count_stat st\<rparr>"

definition merge_entry :: "statmap \<Rightarrow> int32 \<times> Stat \<Rightarrow> statmap" where
  "merge_entry global e =
     (case e of (ident, st) \<Rightarrow>
        (case map_of global ident of
           None \<Rightarrow> AList.update ident st global
         | Some g \<Rightarrow> AList.update ident (combine g st) global))"

text \<open>\<open>for _, m := range locals { for id, st := range m { ... } }\<close>, from the empty map.\<close>

definition merge_locals :: "statmap list \<Rightarrow> statmap" where
  "merge_locals locals = foldl (\<lambda>global m. foldl merge_entry global m) [] locals"

section \<open>The run\<close>

text \<open>
  The output loop resolves each identifier with \<open>intern.Name(id)\<close> and prints the name
  with \<open>min\<close>, \<open>max\<close> and the average. The model returns the resolved records in place of
  the printed text; the conversion to floating point for printing is not part of it.
\<close>

fun emit :: "Intern \<Rightarrow> statmap \<Rightarrow> panic + (byte list \<times> Stat) list" where
  "emit intern [] = Inr []"
| "emit intern ((ident, s) # rest) =
     (case Name intern ident of
        Inl e \<Rightarrow> Inl e
      | Inr nm \<Rightarrow>
          (case emit intern rest of
             Inl e \<Rightarrow> Inl e
           | Inr out \<Rightarrow> Inr ((nm, s) # out)))"

text \<open>
  Lines 152 to 217 of \<open>main\<close> for a given number of workers: partition, aggregate, merge,
  resolve. \<open>len(data) / workers\<close> panics when \<open>workers\<close> is zero.
\<close>

definition pipeline :: "byte list \<Rightarrow> nat \<Rightarrow> panic + (byte list \<times> Stat) list" where
  "pipeline data workers =
     (if workers = 0 then Inl IntegerDivideByZero
      else case partitions data workers of
             Inl e \<Rightarrow> Inl e
           | Inr bufs \<Rightarrow>
               (case runWorkers bufs newIntern of
                  Inl e \<Rightarrow> Inl e
                | Inr (locals, intern) \<Rightarrow> emit intern (merge_locals locals)))"

text \<open>
  \<open>main\<close>. The file is \<open>None\<close> when opening, \<open>Stat\<close> or \<open>Mmap\<close> fails (the program panics).
  \<open>if size == 0 { return }\<close> ends the run with nothing printed. \<open>nCPU\<close> is
  \<open>runtime.NumCPU()\<close>; \<open>workers\<close> is capped at 8. The profiling calls are left out.
\<close>

definition main :: "nat \<Rightarrow> byte list option \<Rightarrow> panic + (byte list \<times> Stat) list" where
  "main nCPU file =
     (case file of
        None \<Rightarrow> Inl InputAccessError
      | Some data \<Rightarrow>
          if length data = 0 then Inr []
          else pipeline data (if nCPU > 8 then 8 else nCPU))"

text \<open>Byte strings are written as text: \<open>bytes ''A;1''\<close>.\<close>

definition bytes :: "string \<Rightarrow> byte list" where
  "bytes s = map of_char s"

text \<open>Partitions joined with one line feed between neighbours.\<close>

fun join_lf :: "byte list list \<Rightarrow> byte list" where
  "join_lf [] = []"
| "join_lf [p] = p"
| "join_lf (p # q # ps) = p @ [10] @ join_lf (q # ps)"

section \<open>Merge reducer: every order gives the same global mapping\<close>

lemma sint_smin: "sint (if b <s a then b else a) = min (sint a) (sint (b :: int32))"
  by (simp add: word_sless_alt min_def)

lemma sint_smax: "sint (if a <s b then b else a) = max (sint a) (sint (b :: int32))"
  by (simp add: word_sless_alt max_def)

lemma smin_commute: "(if b <s a then b else a) = (if a <s b then a else (b :: int32))"
  by (rule signed_word_eqI [where ?'a = int]) (simp only: sint_smin min.commute)

lemma smax_commute: "(if a <s b then b else a) = (if b <s a then a else (b :: int32))"
  by (rule signed_word_eqI [where ?'a = int]) (simp only: sint_smax max.commute)

lemma smin_assoc:
  "(if c <s (if b <s a then b else a) then c else (if b <s a then b else a)) =
   (if (if c <s b then c else b) <s a then (if c <s b then c else b) else (a :: int32))"
  by (rule signed_word_eqI [where ?'a = int]) (simp only: sint_smin min.assoc)

lemma smax_assoc:
  "(if (if a <s b then b else a) <s c then c else (if a <s b then b else a)) =
   (if a <s (if b <s c then c else b) then (if b <s c then c else b) else (a :: int32))"
  by (rule signed_word_eqI [where ?'a = int]) (simp only: sint_smax max.assoc)

lemma combine_commute: "combine a b = combine b a"
  by (simp only: combine_def smin_commute [of "min_stat b" "min_stat a"]
      smax_commute [of "max_stat a" "max_stat b"] add.commute [of "sum_stat a"]
      add.commute [of "count_stat a"])

lemma combine_assoc: "combine (combine a b) c = combine a (combine b c)"
  by (simp only: combine_def Stat.select_convs smin_assoc smax_assoc add.assoc)

definition merge_entry_map :: "(int32 \<rightharpoonup> Stat) \<Rightarrow> int32 \<times> Stat \<Rightarrow> (int32 \<rightharpoonup> Stat)" where
  "merge_entry_map g e =
     g(fst e \<mapsto> (case g (fst e) of None \<Rightarrow> snd e | Some s \<Rightarrow> combine s (snd e)))"

lemma map_of_merge_entry: "map_of (merge_entry g e) = merge_entry_map (map_of g) e"
  by (cases e) (auto simp: merge_entry_def merge_entry_map_def update_conv' split: option.splits)

lemma map_of_foldl_merge_entry:
  "map_of (foldl merge_entry g es) = fold (\<lambda>e g. merge_entry_map g e) es (map_of g)"
  by (induction es arbitrary: g) (simp_all add: map_of_merge_entry)

lemma merge_entry_map_commute:
  "merge_entry_map (merge_entry_map g e1) e2 = merge_entry_map (merge_entry_map g e2) e1"
proof (cases "fst e1 = fst e2")
  case True
  have c: "combine (combine s (snd e1)) (snd e2) = combine (combine s (snd e2)) (snd e1)" for s
    by (metis combine_assoc combine_commute)
  show ?thesis using True combine_commute [of "snd e1" "snd e2"]
    by (auto simp: merge_entry_map_def fun_eq_iff c split: option.splits)
next
  case False
  then show ?thesis
    by (auto simp: merge_entry_map_def fun_eq_iff split: option.splits)
qed

lemma merge_locals_concat: "merge_locals ls = foldl merge_entry [] (concat ls)"
proof -
  have "foldl (\<lambda>global m. foldl merge_entry global m) g ls = foldl merge_entry g (concat ls)" for g
    by (induction ls arbitrary: g) simp_all
  then show ?thesis by (simp add: merge_locals_def)
qed

lemma merge_locals_mset:
  assumes "mset (concat ls) = mset (concat ls')"
  shows "map_of (merge_locals ls) = map_of (merge_locals ls')"
proof -
  have "fold (\<lambda>e g. merge_entry_map g e) (concat ls) = fold (\<lambda>e g. merge_entry_map g e) (concat ls')"
    by (rule fold_multiset_equiv) (auto simp: fun_eq_iff merge_entry_map_commute assms)
  then show ?thesis
    by (simp add: merge_locals_concat map_of_foldl_merge_entry)
qed

lemma fold_merge_entry_map_other:
  "k \<notin> fst ` set es \<Longrightarrow> fold (\<lambda>e g. merge_entry_map g e) es g k = g k"
  by (induction es arbitrary: g) (auto simp: merge_entry_map_def)

lemma fold_merge_entry_map_single:
  "distinct (map fst m) \<Longrightarrow> map_of m k = Some st \<Longrightarrow> g k = None \<Longrightarrow>
   fold (\<lambda>e g. merge_entry_map g e) m g k = Some st"
proof (induction m arbitrary: g)
  case Nil
  then show ?case by simp
next
  case (Cons e m)
  show ?case
  proof (cases "fst e = k")
    case True
    then have "k \<notin> fst ` set m" using Cons.prems(1) by auto
    then have "fold (\<lambda>e g. merge_entry_map g e) m (merge_entry_map g e) k = merge_entry_map g e k"
      by (rule fold_merge_entry_map_other)
    also have "\<dots> = Some st"
      using Cons.prems True by (cases e) (auto simp: merge_entry_map_def)
    finally show ?thesis by simp
  next
    case False
    then show ?thesis using Cons
      by (cases e) (auto simp: merge_entry_map_def)
  qed
qed

lemma merge_locals_single:
  assumes "distinct (map fst m)" "map_of m k = Some st"
    and "\<forall>m' \<in> set ls1 \<union> set ls2. k \<notin> fst ` set m'"
  shows "map_of (merge_locals (ls1 @ [m] @ ls2)) k = Some st"
proof -
  have 1: "k \<notin> fst ` set (concat ls1)" "k \<notin> fst ` set (concat ls2)"
    using assms(3) by auto
  show ?thesis
    using assms(1,2)
    by (simp add: merge_locals_concat map_of_foldl_merge_entry
        fold_merge_entry_map_other [OF 1(2)] fold_merge_entry_map_other [OF 1(1)]
        fold_merge_entry_map_single)
qed

text \<open>
  C2 (merge order). The rule that combines two accumulators of one key is commutative and
  associative; the global mapping (read with \<open>map_of\<close>) is the same for every order of
  the local mappings and for every order in which the entries of each are visited (Go
  ranges over a map in no fixed order); and a key that occurs in one local mapping only
  keeps the accumulator it has there.
\<close>

theorem C2_merge_any_order:
  "combine a b = combine b a \<and>
   combine (combine a b) c = combine a (combine b c) \<and>
   (mset ls = mset ls' \<longrightarrow> map_of (merge_locals ls) = map_of (merge_locals ls')) \<and>
   (mset (concat ls) = mset (concat ls') \<longrightarrow> map_of (merge_locals ls) = map_of (merge_locals ls')) \<and>
   (distinct (map fst m) \<and> map_of m k = Some st \<and> (\<forall>m' \<in> set ls1 \<union> set ls2. k \<notin> fst ` set m') \<longrightarrow>
      map_of (merge_locals (ls1 @ [m] @ ls2)) k = Some st)"
proof -
  have "mset (concat ls) = mset (concat ls')" if "mset ls = mset ls'"
    using that by (metis mset_concat mset_map sum_mset_sum_list)
  then show ?thesis
    using combine_commute combine_assoc merge_locals_mset merge_locals_single
    by blast
qed

theorem C2_merge_any_order_witness:
  "map_of (merge_locals
     [[(0, \<lparr>min_stat = 1, max_stat = 5, sum_stat = 6, count_stat = 2\<rparr>)],
      [(0, \<lparr>min_stat = - 3, max_stat = 2, sum_stat = - 1, count_stat = 2\<rparr>),
       (1, \<lparr>min_stat = 7, max_stat = 7, sum_stat = 7, count_stat = 1\<rparr>)]]) =
   map_of (merge_locals
     [[(1, \<lparr>min_stat = 7, max_stat = 7, sum_stat = 7, count_stat = 1\<rparr>),
       (0, \<lparr>min_stat = - 3, max_stat = 2, sum_stat = - 1, count_stat = 2\<rparr>)],
      [(0, \<lparr>min_stat = 1, max_stat = 5, sum_stat = 6, count_stat = 2\<rparr>)]]) \<and>
   map_of (merge_locals
     ([[(0, \<lparr>min_stat = 1, max_stat = 5, sum_stat = 6, count_stat = 2\<rparr>)]] @
      [[(0, \<lparr>min_stat = - 3, max_stat = 2, sum_stat = - 1, count_stat = 2\<rparr>),
        (1, \<lparr>min_stat = 7, max_stat = 7, sum_stat = 7, count_stat = 1\<rparr>)]] @ [])) 1 =
     Some \<lparr>min_stat = 7, max_stat = 7, sum_stat = 7, count_stat = 1\<rparr>"
proof -
  let ?s1 = "\<lparr>min_stat = 1, max_stat = 5, sum_stat = 6, count_stat = 2\<rparr> :: Stat"
  let ?s2 = "\<lparr>min_stat = - 3, max_stat = 2, sum_stat = - 1, count_stat = 2\<rparr> :: Stat"
  let ?s3 = "\<lparr>min_stat = 7, max_stat = 7, sum_stat = 7, count_stat = 1\<rparr> :: Stat"
  let ?m = "[(0 :: int32, ?s2), (1, ?s3)]"
  have p: "mset (concat [[(0 :: int32, ?s1)], ?m]) = mset (concat [[(1, ?s3), (0, ?s2)], [(0, ?s1)]])"
    by simp
  have d: "distinct (map fst ?m) \<and> map_of ?m 1 = Some ?s3 \<and>
           (\<forall>m' \<in> set [[(0 :: int32, ?s1)]] \<union> set []. 1 \<notin> fst ` set m')"
    by simp
  from C2_merge_any_order [of ?s1 ?s2 ?s3 "[[(0, ?s1)], ?m]" "[[(1, ?s3), (0, ?s2)], [(0, ?s1)]]"
      ?m 1 ?s3 "[[(0, ?s1)]]" "[]"] p d
  show ?thesis by blast
qed

section \<open>Key interner: identifiers and names\<close>

lemma equalSB_from_iff:
  "equalSB_from s b i \<longleftrightarrow> (\<forall>j. i \<le> j \<and> j < length b \<longrightarrow> s ! j = b ! j)"
proof (induction s b i rule: equalSB_from.induct)
  case (1 s b i)
  show ?case
  proof (cases "i < length b")
    case True
    show ?thesis
    proof (cases "s ! i = b ! i")
      case eq: True
      have "equalSB_from s b i = equalSB_from s b (i + 1)"
        using True eq by (subst equalSB_from.simps) simp
      also have "\<dots> \<longleftrightarrow> (\<forall>j. i + 1 \<le> j \<and> j < length b \<longrightarrow> s ! j = b ! j)"
        using "1.IH" True eq by simp
      also have "\<dots> \<longleftrightarrow> (\<forall>j. i \<le> j \<and> j < length b \<longrightarrow> s ! j = b ! j)"
        using eq by (metis Suc_eq_plus1 Suc_leI le_eq_less_or_eq le_SucI not_less_eq_eq)
      finally show ?thesis .
    next
      case False
      then show ?thesis using True by (subst equalSB_from.simps) auto
    qed
  next
    case False
    then show ?thesis by (subst equalSB_from.simps) auto
  qed
qed

lemma equalSB_iff: "equalSB s b \<longleftrightarrow> s = b"
  by (auto simp: equalSB_def equalSB_from_iff list_eq_iff_nth_eq)

text \<open>
  The interner is well formed when its names are distinct, every identifier stored in a
  shard indexes \<open>names\<close>, and every name is listed under its own hash.
\<close>

definition valid_id :: "byte list list \<Rightarrow> int32 \<Rightarrow> bool" where
  "valid_id nms x \<longleftrightarrow> 0 \<le> sint x \<and> nat (sint x) < length nms"

lemma find_id_Some:
  "find_id nms ids b = Inr (Some x) \<Longrightarrow> x \<in> set ids \<and> valid_id nms x \<and> nms ! nat (sint x) = b"
  by (induction ids) (auto simp: valid_id_def equalSB_iff split: if_splits)

lemma find_id_None:
  "find_id nms ids b = Inr None \<Longrightarrow> \<forall>x \<in> set ids. nms ! nat (sint x) \<noteq> b"
  by (induction ids) (auto simp: equalSB_iff split: if_splits)

lemma find_id_no_panic:
  "\<forall>x \<in> set ids. valid_id nms x \<Longrightarrow> \<exists>r. find_id nms ids b = Inr r"
  by (induction ids) (auto simp: valid_id_def)

lemma sint_word_of_nat:
  "n < 2 ^ 31 \<Longrightarrow> sint (word_of_nat n :: int32) = int n"
  by (simp add: signed_of_nat signed_take_bit_int_eq_self)


definition ids_of :: "Intern \<Rightarrow> uint64 \<Rightarrow> int32 list" where
  "ids_of it h = (case shards it (unat (h AND 255)) h of None \<Rightarrow> [] | Some l \<Rightarrow> l)"

definition intern_inv :: "Intern \<Rightarrow> bool" where
  "intern_inv it \<longleftrightarrow>
     distinct (names it) \<and> length (names it) \<le> 2 ^ 31 \<and>
     (\<forall>h. \<forall>x \<in> set (ids_of it h). valid_id (names it) x) \<and>
     (\<forall>j < length (names it). word_of_nat j \<in> set (ids_of it (fnv1a64 (names it ! j))))"

lemma intern_inv_new: "intern_inv newIntern"
  by (simp add: intern_inv_def newIntern_def ids_of_def)

lemma GetOrAdd_unfold:
  "GetOrAdd it b =
     (case find_id (names it) (ids_of it (fnv1a64 b)) b of
        Inl e \<Rightarrow> Inl e
      | Inr (Some x) \<Rightarrow> Inr (x, it)
      | Inr None \<Rightarrow>
          Inr (word_of_nat (length (names it)),
               \<lparr>shards = (shards it)(unat (fnv1a64 b AND 255) :=
                   (shards it (unat (fnv1a64 b AND 255)))
                     (fnv1a64 b \<mapsto> ids_of it (fnv1a64 b) @ [word_of_nat (length (names it))])),
                names = names it @ [b]\<rparr>))"
  by (simp only: GetOrAdd_def ids_of_def Let_def)

lemma GetOrAdd_found:
  assumes inv: "intern_inv it" and mem: "b \<in> set (names it)"
  shows "\<exists>x. GetOrAdd it b = Inr (x, it) \<and> valid_id (names it) x \<and> names it ! nat (sint x) = b"
proof -
  have v: "\<forall>x \<in> set (ids_of it (fnv1a64 b)). valid_id (names it) x"
    using inv by (simp add: intern_inv_def)
  obtain r where r: "find_id (names it) (ids_of it (fnv1a64 b)) b = Inr r"
    using find_id_no_panic [OF v] by blast
  obtain j where j: "j < length (names it)" "names it ! j = b"
    using mem by (auto simp: in_set_conv_nth)
  have jb: "j < 2 ^ 31" using inv j(1) by (simp add: intern_inv_def)
  have "word_of_nat j \<in> set (ids_of it (fnv1a64 b))"
    using inv j by (auto simp: intern_inv_def)
  moreover have "names it ! nat (sint (word_of_nat j :: int32)) = b"
    using j(2) jb by (simp add: sint_word_of_nat)
  ultimately have "r \<noteq> None"
    using find_id_None [of "names it" "ids_of it (fnv1a64 b)" b] r by auto
  then obtain x where x: "r = Some x" by auto
  from find_id_Some [of "names it" "ids_of it (fnv1a64 b)" b x] r x
  show ?thesis by (simp add: GetOrAdd_unfold)
qed

lemma GetOrAdd_new:
  assumes inv: "intern_inv it" and new: "b \<notin> set (names it)" and len: "length (names it) < 2 ^ 31"
  shows "\<exists>it'. GetOrAdd it b = Inr (word_of_nat (length (names it)), it') \<and>
           names it' = names it @ [b] \<and> intern_inv it'"
proof -
  let ?h = "fnv1a64 b"
  let ?n = "length (names it)"
  let ?it' = "\<lparr>shards = (shards it)(unat (?h AND 255) :=
                   (shards it (unat (?h AND 255)))(?h \<mapsto> ids_of it ?h @ [word_of_nat ?n])),
                names = names it @ [b]\<rparr>"
  have v: "\<forall>x \<in> set (ids_of it ?h). valid_id (names it) x"
    using inv by (simp add: intern_inv_def)
  obtain r where r: "find_id (names it) (ids_of it ?h) b = Inr r"
    using find_id_no_panic [OF v] by blast
  have "r = None"
  proof (cases r)
    case (Some x)
    with find_id_Some [of "names it" "ids_of it ?h" b x] r
    have "valid_id (names it) x" "names it ! nat (sint x) = b" by simp_all
    then have "b \<in> set (names it)" by (auto simp: valid_id_def)
    with new show ?thesis by simp
  qed simp
  with r have g: "GetOrAdd it b = Inr (word_of_nat ?n, ?it')"
    by (simp add: GetOrAdd_unfold)
  have ids': "ids_of ?it' h = (if h = ?h then ids_of it ?h @ [word_of_nat ?n] else ids_of it h)" for h
    by (simp add: ids_of_def)
  have sn: "sint (word_of_nat ?n :: int32) = int ?n"
    using len by (rule sint_word_of_nat)
  have "distinct (names ?it')" using inv new by (simp add: intern_inv_def)
  moreover have "length (names ?it') \<le> 2 ^ 31" using len by simp
  moreover have "\<forall>h. \<forall>x \<in> set (ids_of ?it' h). valid_id (names ?it') x"
  proof (intro allI ballI)
    fix h x assume "x \<in> set (ids_of ?it' h)"
    then consider "x \<in> set (ids_of it h)" | "x = word_of_nat ?n"
      by (auto simp: ids' split: if_splits)
    then show "valid_id (names ?it') x"
    proof cases
      case 1
      then have "valid_id (names it) x" using inv by (simp add: intern_inv_def)
      then show ?thesis by (simp add: valid_id_def)
    next
      case 2
      then show ?thesis using sn by (simp add: valid_id_def)
    qed
  qed
  moreover have "\<forall>j < length (names ?it'). word_of_nat j \<in> set (ids_of ?it' (fnv1a64 (names ?it' ! j)))"
  proof (intro allI impI)
    fix j assume "j < length (names ?it')"
    then consider "j < ?n" | "j = ?n" by force
    then show "word_of_nat j \<in> set (ids_of ?it' (fnv1a64 (names ?it' ! j)))"
    proof cases
      case 1
      then have "word_of_nat j \<in> set (ids_of it (fnv1a64 (names it ! j)))"
        using inv by (simp add: intern_inv_def)
      then show ?thesis using 1 by (auto simp: ids' nth_append)
    next
      case 2
      then show ?thesis by (simp add: ids')
    qed
  qed
  ultimately have "intern_inv ?it'" unfolding intern_inv_def by blast
  with g show ?thesis by (intro exI [of _ ?it']) simp
qed


lemma GetOrAdd_correct:
  assumes inv: "intern_inv it" and card: "card (insert b (set (names it))) \<le> 2 ^ 31"
  shows "\<exists>x it'. GetOrAdd it b = Inr (x, it') \<and> intern_inv it' \<and>
           valid_id (names it') x \<and> names it' ! nat (sint x) = b \<and>
           set (names it') = insert b (set (names it)) \<and>
           (\<forall>y. valid_id (names it) y \<longrightarrow> names it' ! nat (sint y) = names it ! nat (sint y))"
proof (cases "b \<in> set (names it)")
  case True
  from GetOrAdd_found [OF inv True] show ?thesis using inv True by (auto simp: insert_absorb)
next
  case False
  have "card (set (names it)) = length (names it)"
    using inv by (simp add: intern_inv_def distinct_card)
  then have len: "length (names it) < 2 ^ 31"
    using card False by simp
  from GetOrAdd_new [OF inv False len] obtain it' where
    it': "GetOrAdd it b = Inr (word_of_nat (length (names it)), it')"
         "names it' = names it @ [b]" "intern_inv it'" by blast
  have "sint (word_of_nat (length (names it)) :: int32) = int (length (names it))"
    using len by (rule sint_word_of_nat)
  then show ?thesis using it'
    by (auto simp: valid_id_def nth_append)
qed

lemma internAll_correct:
  assumes "intern_inv it" "card (set (names it) \<union> set ks) \<le> 2 ^ 31"
  shows "\<exists>ids it'. internAll it ks = Inr (ids, it') \<and> intern_inv it' \<and> length ids = length ks \<and>
           set (names it') = set (names it) \<union> set ks \<and>
           (\<forall>i < length ks. valid_id (names it') (ids ! i) \<and> names it' ! nat (sint (ids ! i)) = ks ! i) \<and>
           (\<forall>y. valid_id (names it) y \<longrightarrow>
                valid_id (names it') y \<and> names it' ! nat (sint y) = names it ! nat (sint y))"
  using assms
proof (induction ks arbitrary: it)
  case Nil
  then show ?case by simp
next
  case (Cons b bs)
  have fin: "finite (set (names it) \<union> set (b # bs))" by simp
  have "card (insert b (set (names it))) \<le> card (set (names it) \<union> set (b # bs))"
    by (rule card_mono [OF fin]) auto
  then have c1: "card (insert b (set (names it))) \<le> 2 ^ 31"
    using Cons.prems(2) by simp
  from GetOrAdd_correct [OF Cons.prems(1) c1] obtain x it1 where
    g: "GetOrAdd it b = Inr (x, it1)" "intern_inv it1" "valid_id (names it1) x"
       "names it1 ! nat (sint x) = b" "set (names it1) = insert b (set (names it))"
       "\<forall>y. valid_id (names it) y \<longrightarrow> names it1 ! nat (sint y) = names it ! nat (sint y)"
    by blast
  have vmono: "valid_id (names it1) y" if "valid_id (names it) y" for y
  proof -
    have "card (set (names it)) \<le> card (set (names it1))"
      using g(5) by (intro card_mono) auto
    then have "length (names it) \<le> length (names it1)"
      using Cons.prems(1) g(2) by (simp add: intern_inv_def distinct_card)
    then show ?thesis using that by (simp add: valid_id_def)
  qed
  have "set (names it1) \<union> set bs = set (names it) \<union> set (b # bs)"
    using g(5) by auto
  then have c2: "card (set (names it1) \<union> set bs) \<le> 2 ^ 31"
    using Cons.prems(2) by simp
  from Cons.IH [OF g(2) c2] obtain ids it2 where
    r: "internAll it1 bs = Inr (ids, it2)" "intern_inv it2" "length ids = length bs"
       "set (names it2) = set (names it1) \<union> set bs"
       "\<forall>i < length bs. valid_id (names it2) (ids ! i) \<and> names it2 ! nat (sint (ids ! i)) = bs ! i"
       "\<forall>y. valid_id (names it1) y \<longrightarrow>
            valid_id (names it2) y \<and> names it2 ! nat (sint y) = names it1 ! nat (sint y)"
    by blast
  have e: "internAll it (b # bs) = Inr (x # ids, it2)"
    using g(1) r(1) by simp
  have idx: "valid_id (names it2) ((x # ids) ! i) \<and> names it2 ! nat (sint ((x # ids) ! i)) = (b # bs) ! i"
    if "i < length (b # bs)" for i
  proof (cases i)
    case 0
    then show ?thesis using g(3,4) r(6) by simp
  next
    case (Suc k)
    then show ?thesis using that r(5) by simp
  qed
  have old: "valid_id (names it2) y \<and> names it2 ! nat (sint y) = names it ! nat (sint y)"
    if "valid_id (names it) y" for y
    using that vmono [OF that] g(6) r(6) by simp
  show ?case
    using e r(2,3,4) g(5) idx old by (intro exI [of _ "x # ids"] exI [of _ it2]) auto
qed


text \<open>
  Calls of \<open>GetOrAdd\<close> made one after the other, starting from a fresh interner, all return
  an identifier (no panic), and two of the keys get the same identifier exactly when they
  are the same byte sequence, whatever their hashes are. The identifiers are \<open>int32\<close>, so
  the run may hold at most \<open>2^31\<close> distinct keys.
\<close>

lemma interning_injective_sequential:
  assumes "card (set ks) \<le> 2 ^ 31"
  shows "\<exists>ids it. internAll newIntern ks = Inr (ids, it) \<and> length ids = length ks \<and>
           (\<forall>i < length ks. \<forall>j < length ks. (ids ! i = ids ! j) = (ks ! i = ks ! j))"
proof -
  have c: "card (set (names newIntern) \<union> set ks) \<le> 2 ^ 31"
    using assms by (simp add: newIntern_def)
  from internAll_correct [OF intern_inv_new c] obtain ids it where
    r: "internAll newIntern ks = Inr (ids, it)" "intern_inv it" "length ids = length ks"
       "\<forall>i < length ks. valid_id (names it) (ids ! i) \<and> names it ! nat (sint (ids ! i)) = ks ! i"
    by blast
  have "(ids ! i = ids ! j) = (ks ! i = ks ! j)" if i: "i < length ks" and j: "j < length ks" for i j
  proof
    assume "ids ! i = ids ! j"
    then show "ks ! i = ks ! j" using r(4) i j by metis
  next
    assume e: "ks ! i = ks ! j"
    have d: "distinct (names it)" using r(2) by (simp add: intern_inv_def)
    have vi: "nat (sint (ids ! i)) < length (names it)" "0 \<le> sint (ids ! i)"
      and vj: "nat (sint (ids ! j)) < length (names it)" "0 \<le> sint (ids ! j)"
      using r(4) i j by (simp_all add: valid_id_def)
    have "names it ! nat (sint (ids ! i)) = names it ! nat (sint (ids ! j))"
      using r(4) i j e by simp
    then have "nat (sint (ids ! i)) = nat (sint (ids ! j))"
      using d vi(1) vj(1) by (simp add: nth_eq_iff_index_eq)
    then have "sint (ids ! i) = sint (ids ! j)" using vi(2) vj(2) by simp
    then show "ids ! i = ids ! j" by (rule signed_word_eqI [where ?'a = int])
  qed
  with r(1,3) show ?thesis by blast
qed

subsection \<open>Calls from several goroutines\<close>

text \<open>The three sections, run with nothing in between, are \<open>GetOrAdd\<close>.\<close>

lemma GetOrAdd_sections:
  "GetOrAdd intern b =
     (case readPath intern b of
        Inl e \<Rightarrow> Inl e
      | Inr (Some ident, ids) \<Rightarrow> Inr (ident, intern)
      | Inr (None, ids) \<Rightarrow>
          (case registerName intern b of
             (ident, intern1) \<Rightarrow> Inr (ident, writeShard intern1 b ids ident)))"
  by (simp add: GetOrAdd_def readPath_def registerName_def writeShard_def Let_def
      split: sum.splits option.splits)

lemma readPath_fresh: "readPath newIntern b = Inr (None, [])"
  by (simp add: readPath_def newIntern_def Let_def)


lemma GetOrAdd_fresh:
  "GetOrAdd newIntern key =
     Inr (0, \<lparr>shards = (\<lambda>i. Map.empty)(unat (fnv1a64 key AND 255) := [fnv1a64 key \<mapsto> [0]]),
              names = [key]\<rparr>)"
  by (simp add: GetOrAdd_def newIntern_def Let_def)

lemma internAll_same_key_twice:
  "\<exists>it. internAll newIntern [b, b] = Inr ([0, 0], it) \<and> names it = [b]"
proof -
  let ?it = "\<lparr>shards = (\<lambda>i. Map.empty)(unat (fnv1a64 b AND 255) := [fnv1a64 b \<mapsto> [0 :: int32]]),
              names = [b]\<rparr>"
  have "GetOrAdd ?it b = Inr (0, ?it)"
    by (simp add: GetOrAdd_def Let_def equalSB_iff)
  then show ?thesis by (simp add: GetOrAdd_fresh)
qed

text \<open>
  C5 (equal keys get equal identifiers, each key one identifier for the run). The workers
  call \<open>GetOrAdd\<close> from goroutines that share the interner, and the read path, the
  registration and the write into the shard are three separate locked sections with no
  second look-up in between. When two goroutines intern the same new key \<open>b\<close> in a fresh
  interner and both run the read path before either registers, the first is given the
  identifier 0 and the second the identifier 1: \<open>names\<close> holds \<open>b\<close> twice, both identifiers
  resolve to \<open>b\<close>, the shard lists only 1, and the output prints \<open>b\<close> twice, once for
  each local map. The same two calls made one after the other both return 0. With two
  workers the file \<open>Oslo;1.5\<close>, \<open>Oslo;2\<close> is split so that each worker interns \<open>Oslo\<close>.
\<close>

theorem C5_concurrent_calls_two_ids:
  "(\<exists>it. raceGetOrAdd newIntern b b = Inr (0, 1, it) \<and> names it = [b, b] \<and>
         Name it 0 = Inr b \<and> Name it 1 = Inr b \<and>
         shards it (unat (fnv1a64 b AND 255)) (fnv1a64 b) = Some [1] \<and>
         emit it (merge_locals [[(0, s)], [(1, s')]]) = Inr [(b, s), (b, s')]) \<and>
   (0 :: int32) \<noteq> 1 \<and>
   (\<exists>it. internAll newIntern [b, b] = Inr ([0, 0], it) \<and> names it = [b]) \<and>
   partitions (bytes ''Oslo;1.5\<newline>Oslo;2\<newline>'') 2 = Inr [bytes ''Oslo;1.5'', bytes ''Oslo;2\<newline>'']"
proof -
  have p: "partitions (bytes ''Oslo;1.5\<newline>Oslo;2\<newline>'') 2 = Inr [bytes ''Oslo;1.5'', bytes ''Oslo;2\<newline>'']"
    by code_simp
  have "raceGetOrAdd newIntern b b =
          Inr (0, 1, \<lparr>shards = (\<lambda>i. Map.empty)(unat (fnv1a64 b AND 255) := [fnv1a64 b \<mapsto> [1]]),
                       names = [b, b]\<rparr>)"
    unfolding raceGetOrAdd_def readPath_fresh
    by (simp add: registerName_def writeShard_def newIntern_def Let_def)
  then show ?thesis using p internAll_same_key_twice [of b]
    by (simp add: Name_def merge_locals_def merge_entry_def)
qed

text \<open>
  C10 (resolving an interned key). After any keys have been interned one after the other
  from a fresh interner, \<open>GetOrAdd\<close> of a key \<open>b\<close> returns an identifier whose \<open>Name\<close>
  is \<open>b\<close>, and the identifier is non-negative and less than the number of distinct keys
  interned so far, \<open>b\<close> included.
\<close>

theorem C10_name_of_interned:
  assumes "card (insert b (set ks)) \<le> 2 ^ 31"
  shows "\<exists>ids it x it'. internAll newIntern ks = Inr (ids, it) \<and> GetOrAdd it b = Inr (x, it') \<and>
           Name it' x = Inr b \<and> 0 \<le> sint x \<and> nat (sint x) < card (insert b (set ks))"
proof -
  have "card (set ks) \<le> card (insert b (set ks))"
    by (intro card_mono) auto
  then have c: "card (set (names newIntern) \<union> set ks) \<le> 2 ^ 31"
    using assms by (simp add: newIntern_def)
  from internAll_correct [OF intern_inv_new c] obtain ids it where
    r: "internAll newIntern ks = Inr (ids, it)" "intern_inv it"
       "set (names it) = set (names newIntern) \<union> set ks"
    by blast
  have s: "set (names it) = set ks" using r(3) by (simp add: newIntern_def)
  have c2: "card (insert b (set (names it))) \<le> 2 ^ 31" using assms s by simp
  from GetOrAdd_correct [OF r(2) c2] obtain x it' where
    g: "GetOrAdd it b = Inr (x, it')" "intern_inv it'" "valid_id (names it') x"
       "names it' ! nat (sint x) = b" "set (names it') = insert b (set (names it))"
    by blast
  have "length (names it') = card (insert b (set ks))"
    using g(2,5) s by (metis distinct_card intern_inv_def)
  then show ?thesis
    using r(1) g(1,3,4) by (auto simp: Name_def valid_id_def)
qed

theorem C10_name_of_interned_witness:
  "card (insert (bytes ''Rome'') (set [bytes ''Oslo'', bytes ''Rome'', bytes ''Lima''])) \<le> 2 ^ 31 \<and>
   (\<exists>ids it x it'.
      internAll newIntern [bytes ''Oslo'', bytes ''Rome'', bytes ''Lima''] = Inr (ids, it) \<and>
      GetOrAdd it (bytes ''Rome'') = Inr (x, it') \<and> Name it' x = Inr (bytes ''Rome'') \<and>
      0 \<le> sint x \<and>
      nat (sint x) < card (insert (bytes ''Rome'') (set [bytes ''Oslo'', bytes ''Rome'', bytes ''Lima''])))"
proof -
  let ?ks = "[bytes ''Oslo'', bytes ''Rome'', bytes ''Lima'']"
  have "card (set (bytes ''Rome'' # ?ks)) \<le> length (bytes ''Rome'' # ?ks)" by (rule card_length)
  then have h: "card (insert (bytes ''Rome'') (set ?ks)) \<le> 2 ^ 31" by simp
  from h C10_name_of_interned [OF h] show ?thesis by blast
qed

section \<open>Value parser: tenths of the written value\<close>

text \<open>
  The value grammar \<open>[sign]digits['.'digit]\<close>: a sign (nothing, \<open>-\<close> = 45 or \<open>+\<close> = 43),
  decimal digits (48 to 57), and optionally the point (46) with one digit. \<open>digits_val\<close>
  is the number the digits denote, \<open>numeric_value\<close> the number the whole text denotes.
\<close>

definition is_digit :: "byte \<Rightarrow> bool" where
  "is_digit c \<longleftrightarrow> 48 \<le> c \<and> c \<le> 57"

definition digits_val :: "byte list \<Rightarrow> nat" where
  "digits_val ds = foldl (\<lambda>a c. 10 * a + unat (c - 48)) 0 ds"

definition frac_val :: "byte option \<Rightarrow> nat" where
  "frac_val fd = (case fd of None \<Rightarrow> 0 | Some d \<Rightarrow> unat (d - 48))"

definition value_text :: "byte list \<Rightarrow> byte list \<Rightarrow> byte option \<Rightarrow> byte list" where
  "value_text sg ds fd = sg @ ds @ (case fd of None \<Rightarrow> [] | Some d \<Rightarrow> [46, d])"

definition numeric_value :: "byte list \<Rightarrow> byte list \<Rightarrow> byte option \<Rightarrow> rat" where
  "numeric_value sg ds fd =
     (if sg = [45] then - 1 else 1) * (of_nat (digits_val ds) + of_nat (frac_val fd) / 10)"

lemma intPartLoop_digits:
  assumes "\<forall>c \<in> set ds. is_digit c" "tl' = [] \<or> \<not> is_digit (hd tl')"
  shows "intPartLoop (pre @ ds @ tl') (length pre) acc =
           (foldl (\<lambda>a c. a * 10 + ucast (c - 48)) acc ds, length pre + length ds)"
  using assms
proof (induction ds arbitrary: pre acc)
  case Nil
  show ?case
  proof (cases tl')
    case Nil
    then show ?thesis by (subst intPartLoop.simps) simp
  next
    case (Cons c cs)
    then have "\<not> is_digit c" using Nil.prems(2) by simp
    then show ?thesis using Cons
      by (subst intPartLoop.simps) (auto simp: is_digit_def Let_def)
  qed
next
  case (Cons d ds)
  have d: "is_digit d" using Cons.prems(1) by simp
  have "intPartLoop (pre @ (d # ds) @ tl') (length pre) acc =
        intPartLoop ((pre @ [d]) @ ds @ tl') (length (pre @ [d])) (acc * 10 + ucast (d - 48))"
    using d by (subst intPartLoop.simps) (simp add: is_digit_def Let_def)
  also have "\<dots> = (foldl (\<lambda>a c. a * 10 + ucast (c - 48)) (acc * 10 + ucast (d - 48)) ds,
                     length (pre @ [d]) + length ds)"
    using Cons.prems by (intro Cons.IH) simp_all
  finally show ?case by simp
qed

lemma foldl_digits_word:
  "foldl (\<lambda>a c. a * 10 + ucast (c - 48)) (word_of_nat n :: int32) (ds :: byte list) =
   word_of_nat (foldl (\<lambda>a c. 10 * a + unat (c - 48)) n ds)"
proof (induction ds arbitrary: n)
  case Nil
  show ?case by simp
next
  case (Cons d ds)
  have e: "(word_of_nat n :: int32) * 10 + ucast (d - 48) = word_of_nat (10 * n + unat (d - 48))"
    by (simp add: mult.commute)
  show ?case
    by (simp only: foldl_Cons e Cons.IH [of "10 * n + unat (d - 48)"])
qed

lemma sint_word_of_int32:
  "- (2 ^ 31) \<le> k \<Longrightarrow> k < 2 ^ 31 \<Longrightarrow> sint (word_of_int k :: int32) = k"
  by (simp add: signed_of_int signed_take_bit_int_eq_self)


lemma parseSign_text:
  assumes "sg = [] \<or> sg = [45] \<or> sg = [43]" "tl' = [] \<or> (hd tl' \<noteq> 45 \<and> hd tl' \<noteq> 43)"
  shows "parseSign (pre @ sg @ tl') (length pre) =
           (if sg = [45] then - 1 else 1, length pre + length sg)"
  using assms by (cases tl') (auto simp: parseSign_def nth_append)

lemma skipPoint_text:
  "skipPoint (pre @ 46 # tl') (length pre) = length pre + 1"
  "tl' = [] \<or> hd tl' \<noteq> 46 \<Longrightarrow> skipPoint (pre @ tl') (length pre) = length pre"
  by (cases tl'; simp add: skipPoint_def nth_append)+

lemma parseDecDigit_text:
  "is_digit d \<Longrightarrow> parseDecDigit (pre @ d # tl') (length pre) = (ucast (d - 48), length pre + 1)"
  "tl' = [] \<or> \<not> is_digit (hd tl') \<Longrightarrow> parseDecDigit (pre @ tl') (length pre) = (0, length pre)"
  by (cases tl'; auto simp: parseDecDigit_def is_digit_def nth_append Let_def)+

lemma parseTemp_value_text:
  assumes sg: "sg = [] \<or> sg = [45] \<or> sg = [43]"
    and ds: "\<forall>c \<in> set ds. is_digit c"
    and fd: "\<forall>d. fd = Some d \<longrightarrow> is_digit d"
    and rest: "rest = [] \<or> hd rest = 10"
  shows "fst (parseTemp (pre @ value_text sg ds fd @ rest) (length pre)) =
           (if sg = [45] then - 1 else 1) * word_of_nat (10 * digits_val ds + frac_val fd)"
proof -
  let ?fr = "case fd of None \<Rightarrow> [] | Some d \<Rightarrow> [46, d]"
  let ?buf = "pre @ value_text sg ds fd @ rest"
  have nd: "\<not> is_digit 10" "\<not> is_digit 46" by (simp_all add: is_digit_def)
  have dn: "is_digit c \<Longrightarrow> c \<noteq> 45 \<and> c \<noteq> 43 \<and> c \<noteq> 46" for c
    by (auto simp: is_digit_def)
  have t1: "ds @ ?fr @ rest = [] \<or> (hd (ds @ ?fr @ rest) \<noteq> 45 \<and> hd (ds @ ?fr @ rest) \<noteq> 43)"
    using ds rest dn by (cases ds; cases fd; cases rest) auto
  have s1: "parseSign ?buf (length pre) = (if sg = [45] then - 1 else 1, length pre + length sg)"
    using parseSign_text [OF sg t1, of pre] by (simp add: value_text_def)
  have t2: "?fr @ rest = [] \<or> \<not> is_digit (hd (?fr @ rest))"
    using rest nd by (cases fd; cases rest) auto
  have s2: "intPartLoop ?buf (length pre + length sg) 0 =
              (word_of_nat (digits_val ds), length pre + length sg + length ds)"
    using intPartLoop_digits [OF ds t2, of "pre @ sg" 0] foldl_digits_word [of 0 ds]
    by (simp add: value_text_def digits_val_def)
  have s34: "parseDecDigit ?buf (skipPoint ?buf (length pre + length sg + length ds)) =
               (word_of_nat (frac_val fd), length pre + length sg + length ds + length ?fr)"
  proof (cases fd)
    case None
    have "rest = [] \<or> hd rest \<noteq> 46" using rest by auto
    from skipPoint_text(2) [OF this, of "pre @ sg @ ds"]
    have "skipPoint ?buf (length pre + length sg + length ds) = length pre + length sg + length ds"
      using None by (simp add: value_text_def add.assoc)
    moreover have "rest = [] \<or> \<not> is_digit (hd rest)" using rest nd by auto
    from parseDecDigit_text(2) [OF this, of "pre @ sg @ ds"]
    have "parseDecDigit ?buf (length pre + length sg + length ds) =
            (0, length pre + length sg + length ds)"
      using None by (simp add: value_text_def add.assoc)
    ultimately show ?thesis using None by (simp add: frac_val_def)
  next
    case (Some d)
    then have d: "is_digit d" using fd by simp
    have "skipPoint ?buf (length pre + length sg + length ds) = length pre + length sg + length ds + 1"
      using skipPoint_text(1) [of "pre @ sg @ ds" "d # rest"] Some
      by (simp add: value_text_def add.assoc)
    moreover have "parseDecDigit ?buf (length pre + length sg + length ds + 1) =
            (ucast (d - 48), length pre + length sg + length ds + 2)"
      using parseDecDigit_text(1) [OF d, of "pre @ sg @ ds @ [46]" rest] Some
      by (simp add: value_text_def add.assoc)
    ultimately show ?thesis using Some by (simp add: frac_val_def)
  qed
  show ?thesis
    by (simp add: parseTemp_def s1 s2 s34 mult.commute)
qed


text \<open>
  C3 (value parser). For a value written \<open>[sign]digits['.'digit]\<close> and followed by the
  line feed or the end of the buffer, whose tenths fit in \<open>int32\<close>, \<open>parseTemp\<close> returns
  ten times the number the text denotes, so dividing the result by ten (what the output
  does before printing one decimal place) gives that number back.
\<close>

theorem C3_value_parser_tenths:
  assumes sg: "sg = [] \<or> sg = [45] \<or> sg = [43]"
    and ds: "ds \<noteq> [] \<and> (\<forall>c \<in> set ds. is_digit c)"
    and fd: "\<forall>d. fd = Some d \<longrightarrow> is_digit d"
    and rest: "rest = [] \<or> hd rest = 10"
    and range: "10 * digits_val ds + frac_val fd < 2 ^ 31"
  shows "(of_int (sint (fst (parseTemp (pre @ value_text sg ds fd @ rest) (length pre)))) :: rat) =
           10 * numeric_value sg ds fd \<and>
         (of_int (sint (fst (parseTemp (pre @ value_text sg ds fd @ rest) (length pre)))) :: rat) / 10 =
           numeric_value sg ds fd"
proof -
  let ?n = "10 * digits_val ds + frac_val fd"
  let ?t = "fst (parseTemp (pre @ value_text sg ds fd @ rest) (length pre))"
  have t: "?t = (if sg = [45] then - 1 else 1) * word_of_nat ?n"
    using ds by (intro parseTemp_value_text [OF sg _ fd rest]) simp
  have "sint ?t = (if sg = [45] then - 1 else 1) * int ?n"
  proof (cases "sg = [45]")
    case True
    have "?t = word_of_int (- int ?n)" using t True by simp
    then show ?thesis using True range sint_word_of_int32 [of "- int ?n"] by simp
  next
    case False
    have "?t = word_of_int (int ?n)" using t False by simp
    then show ?thesis using False range sint_word_of_int32 [of "int ?n"] by simp
  qed
  then have "(of_int (sint ?t) :: rat) = 10 * numeric_value sg ds fd"
    by (simp add: numeric_value_def algebra_simps)
  then show ?thesis by simp
qed

theorem C3_value_parser_tenths_witness:
  "fst (parseTemp (bytes ''Oslo;-3.2\<newline>Rome;4'') 5) = - 32 \<and>
   fst (parseTemp (bytes ''Oslo;-3.2\<newline>Rome;4'') 15) = 40 \<and>
   (of_int (sint (fst (parseTemp (bytes ''Oslo;'' @ value_text [45] [51] (Some 50) @ [10]) (length (bytes ''Oslo;''))))) :: rat) / 10
     = numeric_value [45] [51] (Some 50) \<and>
   numeric_value [45] [51] (Some 50) = - 32 / 10"
proof -
  have e: "fst (parseTemp (bytes ''Oslo;-3.2\<newline>Rome;4'') 5) = - 32"
    "fst (parseTemp (bytes ''Oslo;-3.2\<newline>Rome;4'') 15) = 40"
    by code_simp+
  have n: "numeric_value [45] [51] (Some 50) = - 32 / 10"
    by (simp add: numeric_value_def digits_val_def frac_val_def)
  have h: "[45 :: byte] = [] \<or> [45 :: byte] = [45] \<or> [45 :: byte] = [43]"
    "[51 :: byte] \<noteq> [] \<and> (\<forall>c \<in> set [51 :: byte]. is_digit c)"
    "\<forall>d. Some (50 :: byte) = Some d \<longrightarrow> is_digit d"
    "[10 :: byte] = [] \<or> hd [10 :: byte] = 10"
    "10 * digits_val [51] + frac_val (Some 50) < 2 ^ 31"
    by (simp_all add: is_digit_def digits_val_def frac_val_def)
  from C3_value_parser_tenths [OF h, of "bytes ''Oslo;''"] e n show ?thesis by simp
qed

section \<open>Line scanner: the scan works line by line\<close>

subsection \<open>A prefix of the buffer only shifts the indices\<close>

lemma findSemi_shift:
  "findSemi (pre @ buf) (length pre + i) (length pre + ls) =
     (case findSemi buf i ls of
        (s, i', ls') \<Rightarrow> (map_option (\<lambda>p. length pre + p) s, length pre + i', length pre + ls'))"
proof (induction buf i ls rule: findSemi.induct)
  case (1 buf i ls)
  show ?case
  proof (cases "i < length buf")
    case True
    then have n: "(pre @ buf) ! (length pre + i) = buf ! i" "length pre + i < length (pre @ buf)"
      by simp_all
    consider "buf ! i = 59" | "buf ! i \<noteq> 59" "buf ! i = 10" | "buf ! i \<noteq> 59" "buf ! i \<noteq> 10"
      by blast
    then show ?thesis
    proof cases
      case 1
      then show ?thesis using True n
        by (subst findSemi.simps, subst (2) findSemi.simps) (simp add: Let_def)
    next
      case 2
      have "findSemi (pre @ buf) (length pre + i) (length pre + ls) =
            findSemi (pre @ buf) (length pre + (i + 1)) (length pre + (i + 1))"
        using True n 2 by (subst findSemi.simps) (simp add: Let_def)
      also have "\<dots> = (case findSemi buf (i + 1) (i + 1) of
        (s, i', ls') \<Rightarrow> (map_option (\<lambda>p. length pre + p) s, length pre + i', length pre + ls'))"
        using "1.IH"(1) True 2 by simp
      also have "findSemi buf (i + 1) (i + 1) = findSemi buf i ls"
        using True 2 by (subst (2) findSemi.simps) (simp add: Let_def)
      finally show ?thesis .
    next
      case 3
      have "findSemi (pre @ buf) (length pre + i) (length pre + ls) =
            findSemi (pre @ buf) (length pre + (i + 1)) (length pre + ls)"
        using True n 3 by (subst findSemi.simps) (simp add: Let_def)
      also have "\<dots> = (case findSemi buf (i + 1) ls of
        (s, i', ls') \<Rightarrow> (map_option (\<lambda>p. length pre + p) s, length pre + i', length pre + ls'))"
        using "1.IH"(2) True 3 by simp
      also have "findSemi buf (i + 1) ls = findSemi buf i ls"
        using True 3 by (subst (2) findSemi.simps) (simp add: Let_def)
      finally show ?thesis .
    qed
  next
    case False
    then show ?thesis
      by (subst findSemi.simps, subst (2) findSemi.simps) simp
  qed
qed

lemma intPartLoop_shift:
  "intPartLoop (pre @ buf) (length pre + i) a =
     (case intPartLoop buf i a of (v, i') \<Rightarrow> (v, length pre + i'))"
proof (induction buf i a rule: intPartLoop.induct)
  case (1 buf i a)
  show ?case
  proof (cases "i < length buf \<and> 48 \<le> buf ! i \<and> buf ! i \<le> 57")
    case True
    then have n: "(pre @ buf) ! (length pre + i) = buf ! i" "length pre + i < length (pre @ buf)"
      by simp_all
    have "intPartLoop (pre @ buf) (length pre + i) a =
          intPartLoop (pre @ buf) (length pre + (i + 1)) (a * 10 + ucast (buf ! i - 48))"
      using True n by (subst intPartLoop.simps) (simp add: Let_def)
    also have "\<dots> = (case intPartLoop buf (i + 1) (a * 10 + ucast (buf ! i - 48)) of
        (v, i') \<Rightarrow> (v, length pre + i'))"
      using "1.IH" True by simp
    also have "intPartLoop buf (i + 1) (a * 10 + ucast (buf ! i - 48)) = intPartLoop buf i a"
      using True by (subst (2) intPartLoop.simps) (simp add: Let_def)
    finally show ?thesis .
  next
    case False
    then show ?thesis
      by (subst intPartLoop.simps, subst (2) intPartLoop.simps) (auto simp: Let_def)
  qed
qed

lemma skipLine_shift:
  "skipLine (pre @ buf) (length pre + i) = length pre + skipLine buf i"
proof (induction buf i rule: skipLine.induct)
  case (1 buf i)
  show ?case
  proof (cases "i < length buf \<and> buf ! i \<noteq> 10")
    case True
    have "skipLine (pre @ buf) (length pre + i) = skipLine (pre @ buf) (length pre + (i + 1))"
      using True by (subst skipLine.simps) simp
    also have "\<dots> = length pre + skipLine buf (i + 1)"
      using "1.IH" True by simp
    also have "skipLine buf (i + 1) = skipLine buf i"
      using True by (subst (2) skipLine.simps) simp
    finally show ?thesis .
  next
    case False
    then show ?thesis
      by (subst skipLine.simps, subst (2) skipLine.simps) auto
  qed
qed

lemma parseSign_shift:
  "parseSign (pre @ buf) (length pre + i) = (case parseSign buf i of (v, i') \<Rightarrow> (v, length pre + i'))"
  by (simp add: parseSign_def)

lemma skipPoint_shift: "skipPoint (pre @ buf) (length pre + i) = length pre + skipPoint buf i"
  by (simp add: skipPoint_def)

lemma parseDecDigit_shift:
  "parseDecDigit (pre @ buf) (length pre + i) =
     (case parseDecDigit buf i of (v, i') \<Rightarrow> (v, length pre + i'))"
  by (simp add: parseDecDigit_def Let_def)

lemma skipNewline_shift: "skipNewline (pre @ buf) (length pre + i) = length pre + skipNewline buf i"
  by (simp add: skipNewline_def)

lemma parseTemp_shift:
  "parseTemp (pre @ buf) (length pre + i) = (case parseTemp buf i of (v, i') \<Rightarrow> (v, length pre + i'))"
  by (simp add: parseTemp_def parseSign_shift intPartLoop_shift skipPoint_shift parseDecDigit_shift
      skipLine_shift skipNewline_shift split: prod.splits)

lemma slice_shift: "slice (pre @ buf) (length pre + a) (length pre + b) = slice buf a b"
  by (simp add: slice_def)


lemma parseChunkIDs_from_end:
  "\<not> i < length buf \<Longrightarrow> parseChunkIDs_from buf i m it = Inr (m, it)"
  by (subst parseChunkIDs_from.simps) simp

lemma parseChunkIDs_from_none:
  "i < length buf \<Longrightarrow> findSemi buf i i = (None, i1, ls) \<Longrightarrow>
   parseChunkIDs_from buf i m it = Inr (m, it)"
  by (subst parseChunkIDs_from.simps) simp

lemma parseChunkIDs_from_step:
  "i < length buf \<Longrightarrow> findSemi buf i i = (Some semi, i1, ls) \<Longrightarrow> parseTemp buf i1 = (tenth, i2) \<Longrightarrow>
   parseChunkIDs_from buf i m it =
     (case slice buf ls semi of
        Inl e \<Rightarrow> Inl e
      | Inr key \<Rightarrow>
          (case GetOrAdd it key of
             Inl e \<Rightarrow> Inl e
           | Inr (cid, it') \<Rightarrow> parseChunkIDs_from buf i2 (record_temp m cid tenth) it'))"
  by (subst parseChunkIDs_from.simps) simp

lemma parseChunkIDs_from_shift:
  "parseChunkIDs_from (pre @ buf) (length pre + i) m it = parseChunkIDs_from buf i m it"
proof (induction buf i m it rule: parseChunkIDs_from.induct)
  case (1 buf i m it)
  show ?case
  proof (cases "i < length buf")
    case False
    then show ?thesis by (simp add: parseChunkIDs_from_end)
  next
    case True
    then have True': "length pre + i < length (pre @ buf)" by simp
    obtain s i1 ls where f: "findSemi buf i i = (s, i1, ls)" by (cases "findSemi buf i i") auto
    have f': "findSemi (pre @ buf) (length pre + i) (length pre + i) =
                (map_option (\<lambda>p. length pre + p) s, length pre + i1, length pre + ls)"
      by (simp add: findSemi_shift f)
    show ?thesis
    proof (cases s)
      case None
      then show ?thesis
        using parseChunkIDs_from_none [OF True, of i1 ls] parseChunkIDs_from_none [OF True', of "length pre + i1" "length pre + ls"] f f'
        by simp
    next
      case (Some semi)
      obtain tenth i2 where t: "parseTemp buf i1 = (tenth, i2)" by (cases "parseTemp buf i1") auto
      have t': "parseTemp (pre @ buf) (length pre + i1) = (tenth, length pre + i2)"
        by (simp add: parseTemp_shift t)
      have sl: "slice (pre @ buf) (length pre + ls) (length pre + semi) = slice buf ls semi"
        by (rule slice_shift)
      have fs: "findSemi buf i i = (Some semi, i1, ls)" using f Some by simp
      have fs': "findSemi (pre @ buf) (length pre + i) (length pre + i) =
                   (Some (length pre + semi), length pre + i1, length pre + ls)"
        using f' Some by simp
      note l = parseChunkIDs_from_step [OF True' fs' t', of m it]
      note r = parseChunkIDs_from_step [OF True fs t, of m it]
      show ?thesis
      proof (cases "slice buf ls semi")
        case (Inl e)
        show ?thesis unfolding l r sl Inl by simp
      next
        case (Inr key)
        show ?thesis
        proof (cases "GetOrAdd it key")
          case (Inl e)
          show ?thesis unfolding l r sl Inr sum.case Inl by simp
        next
          case g: (Inr rr)
          obtain cid it' where rr: "rr = (cid, it')" by (cases rr) auto
          have ih: "parseChunkIDs_from (pre @ buf) (length pre + i2) (record_temp m cid tenth) it' =
                    parseChunkIDs_from buf i2 (record_temp m cid tenth) it'"
          proof (rule "1.IH" [of s "(i1, ls)" semi i1 ls tenth i2 key rr cid it'])
            show "i < length buf" by (rule True)
            show "(s, i1, ls) = findSemi buf i i" by (rule f [symmetric])
            show "s = Some semi" by (rule Some)
            show "(i1, ls) = (i1, ls)" by (rule refl)
            show "(tenth, i2) = parseTemp buf i1" by (rule t [symmetric])
            show "slice buf ls semi = Inr key" by (rule Inr)
            show "GetOrAdd it key = Inr rr" by (rule g)
            show "(cid, it') = rr" by (rule rr [symmetric])
          qed
          show ?thesis unfolding l r sl Inr sum.case g rr using ih by simp
        qed
      qed
    qed
  qed
qed


subsection \<open>The scan of a line does not look past its line feed\<close>

lemma parseSign_trunc:
  "j \<le> length A \<Longrightarrow> parseSign (A @ 10 # B) j = parseSign A j"
  by (auto simp: parseSign_def nth_append)

lemma parseSign_bound: "j \<le> length A \<Longrightarrow> snd (parseSign A j) \<le> length A"
  by (auto simp: parseSign_def)

lemma intPartLoop_trunc:
  "j \<le> length A \<Longrightarrow> intPartLoop (A @ 10 # B) j a = intPartLoop A j a"
proof (induction A j a rule: intPartLoop.induct)
  case (1 A j a)
  show ?case
  proof (cases "j < length A \<and> 48 \<le> A ! j \<and> A ! j \<le> 57")
    case True
    have "intPartLoop (A @ 10 # B) j a = intPartLoop (A @ 10 # B) (j + 1) (a * 10 + ucast (A ! j - 48))"
      using True by (subst intPartLoop.simps) (simp add: Let_def nth_append)
    also have "\<dots> = intPartLoop A (j + 1) (a * 10 + ucast (A ! j - 48))"
      using "1.IH" True by simp
    also have "\<dots> = intPartLoop A j a"
      using True by (subst (2) intPartLoop.simps) (simp add: Let_def)
    finally show ?thesis .
  next
    case False
    then show ?thesis using "1.prems"
      by (subst intPartLoop.simps, subst (2) intPartLoop.simps) (auto simp: Let_def nth_append)
  qed
qed

lemma intPartLoop_bound: "j \<le> length A \<Longrightarrow> snd (intPartLoop A j a) \<le> length A"
proof (induction A j a rule: intPartLoop.induct)
  case (1 A j a)
  show ?case
  proof (cases "j < length A \<and> 48 \<le> A ! j \<and> A ! j \<le> 57")
    case True
    have "intPartLoop A j a = intPartLoop A (j + 1) (a * 10 + ucast (A ! j - 48))"
      using True by (subst intPartLoop.simps) (simp add: Let_def)
    then show ?thesis using "1.IH" True by simp
  next
    case False
    then show ?thesis using "1.prems"
      by (subst intPartLoop.simps) (auto simp: Let_def)
  qed
qed

lemma skipPoint_trunc: "j \<le> length A \<Longrightarrow> skipPoint (A @ 10 # B) j = skipPoint A j"
  by (auto simp: skipPoint_def nth_append)

lemma skipPoint_bound: "j \<le> length A \<Longrightarrow> skipPoint A j \<le> length A"
  by (auto simp: skipPoint_def)

lemma parseDecDigit_trunc:
  "j \<le> length A \<Longrightarrow> parseDecDigit (A @ 10 # B) j = parseDecDigit A j"
  by (auto simp: parseDecDigit_def nth_append Let_def)

lemma parseDecDigit_bound: "j \<le> length A \<Longrightarrow> snd (parseDecDigit A j) \<le> length A"
  by (auto simp: parseDecDigit_def Let_def)

lemma skipLine_trunc: "j \<le> length A \<Longrightarrow> skipLine (A @ 10 # B) j = skipLine A j"
proof (induction A j rule: skipLine.induct)
  case (1 A j)
  show ?case
  proof (cases "j < length A \<and> A ! j \<noteq> 10")
    case True
    have "skipLine (A @ 10 # B) j = skipLine (A @ 10 # B) (j + 1)"
      using True by (subst skipLine.simps) (simp add: nth_append)
    also have "\<dots> = skipLine A (j + 1)" using "1.IH" True by simp
    also have "\<dots> = skipLine A j" using True by (subst (2) skipLine.simps) simp
    finally show ?thesis .
  next
    case False
    then show ?thesis using "1.prems"
      by (subst skipLine.simps, subst (2) skipLine.simps) (auto simp: nth_append)
  qed
qed

lemma skipLine_bound: "j \<le> length A \<Longrightarrow> skipLine A j \<le> length A"
proof (induction A j rule: skipLine.induct)
  case (1 A j)
  show ?case
  proof (cases "j < length A \<and> A ! j \<noteq> 10")
    case True
    have "skipLine A j = skipLine A (j + 1)"
      using True by (subst skipLine.simps) simp
    then show ?thesis using "1.IH" True by simp
  next
    case False
    then show ?thesis using "1.prems" by (subst skipLine.simps) auto
  qed
qed

lemma skipNewline_trunc:
  "e \<le> length A \<Longrightarrow>
   skipNewline (A @ 10 # B) e = (if e = length A then length A + 1 else skipNewline A e)"
  by (auto simp: skipNewline_def nth_append)

lemma skipNewline_bound: "e \<le> length A \<Longrightarrow> skipNewline A e \<le> length A"
  by (auto simp: skipNewline_def)

lemma parseTemp_trunc:
  assumes "j \<le> length A" "parseTemp A j = (v, i2)"
  shows "i2 \<le> length A \<and>
         (parseTemp (A @ 10 # B) j = (v, i2) \<or>
          (i2 = length A \<and> parseTemp (A @ 10 # B) j = (v, length A + 1)))"
proof -
  obtain sg i1 where s1: "parseSign A j = (sg, i1)" by (cases "parseSign A j") auto
  have b1: "i1 \<le> length A" using parseSign_bound [OF assms(1)] s1 by simp
  obtain ip i3 where s2: "intPartLoop A i1 0 = (ip, i3)" by (cases "intPartLoop A i1 0") auto
  have b2: "i3 \<le> length A" using intPartLoop_bound [OF b1, of 0] s2 by simp
  have b3: "skipPoint A i3 \<le> length A" using b2 by (rule skipPoint_bound)
  obtain dd i4 where s4: "parseDecDigit A (skipPoint A i3) = (dd, i4)"
    by (cases "parseDecDigit A (skipPoint A i3)") auto
  have b4: "i4 \<le> length A" using parseDecDigit_bound [OF b3] s4 by simp
  have b5: "skipLine A i4 \<le> length A" using b4 by (rule skipLine_bound)
  have a: "parseTemp A j = (sg * (ip * 10 + dd), skipNewline A (skipLine A i4))"
    by (simp add: parseTemp_def s1 s2 s4)
  have b: "parseTemp (A @ 10 # B) j =
             (sg * (ip * 10 + dd), skipNewline (A @ 10 # B) (skipLine A i4))"
    by (simp add: parseTemp_def parseSign_trunc [OF assms(1)] s1 intPartLoop_trunc [OF b1] s2
        skipPoint_trunc [OF b2] parseDecDigit_trunc [OF b3] s4 skipLine_trunc [OF b4])
  have v: "v = sg * (ip * 10 + dd)" and i2: "i2 = skipNewline A (skipLine A i4)"
    using a assms(2) by simp_all
  show ?thesis
  proof (cases "skipLine A i4 = length A")
    case True
    then show ?thesis using b v i2 skipNewline_trunc [OF b5, of B]
      by (simp add: skipNewline_def)
  next
    case False
    then show ?thesis using b v i2 skipNewline_trunc [OF b5, of B] skipNewline_bound [OF b5]
      by simp
  qed
qed

lemma findSemi_trunc_Some:
  "findSemi A j ls = (Some s, i', ls') \<Longrightarrow> findSemi (A @ C) j ls = (Some s, i', ls')"
proof (induction A j ls rule: findSemi.induct)
  case (1 A j ls)
  have lt: "j < length A"
    using "1.prems" by (subst (asm) findSemi.simps) (auto split: if_splits)
  consider "A ! j = 59" | "A ! j \<noteq> 59" "A ! j = 10" | "A ! j \<noteq> 59" "A ! j \<noteq> 10" by blast
  then show ?case
  proof cases
    case 1
    have "findSemi A j ls = (Some j, j + 1, ls)"
      using lt 1 by (subst findSemi.simps) (simp add: Let_def)
    moreover have "findSemi (A @ C) j ls = (Some j, j + 1, ls)"
      using lt 1 by (subst findSemi.simps) (simp add: Let_def nth_append)
    ultimately show ?thesis using "1.prems" by simp
  next
    case 2
    have "findSemi A j ls = findSemi A (j + 1) (j + 1)"
      using lt 2 by (subst findSemi.simps) (simp add: Let_def)
    then have "findSemi (A @ C) (j + 1) (j + 1) = (Some s, i', ls')"
      using "1.IH"(1) lt 2 "1.prems" by simp
    moreover have "findSemi (A @ C) j ls = findSemi (A @ C) (j + 1) (j + 1)"
      using lt 2 by (subst findSemi.simps) (simp add: Let_def nth_append)
    ultimately show ?thesis by simp
  next
    case 3
    have "findSemi A j ls = findSemi A (j + 1) ls"
      using lt 3 by (subst findSemi.simps) (simp add: Let_def)
    then have "findSemi (A @ C) (j + 1) ls = (Some s, i', ls')"
      using "1.IH"(2) lt 3 "1.prems" by simp
    moreover have "findSemi (A @ C) j ls = findSemi (A @ C) (j + 1) ls"
      using lt 3 by (subst findSemi.simps) (simp add: Let_def nth_append)
    ultimately show ?thesis by simp
  qed
qed

lemma findSemi_trunc_None:
  "findSemi A j ls = (None, i', ls') \<Longrightarrow> j \<le> length A \<Longrightarrow>
   findSemi (A @ 10 # B) j ls = findSemi (A @ 10 # B) (length A + 1) (length A + 1)"
proof (induction A j ls rule: findSemi.induct)
  case (1 A j ls)
  show ?case
  proof (cases "j < length A")
    case False
    then have "j = length A" using "1.prems"(2) by simp
    then show ?thesis by (subst findSemi.simps) (simp add: Let_def)
  next
    case lt: True
    consider "A ! j = 59" | "A ! j \<noteq> 59" "A ! j = 10" | "A ! j \<noteq> 59" "A ! j \<noteq> 10" by blast
    then show ?thesis
    proof cases
      case 1
      have "findSemi A j ls = (Some j, j + 1, ls)"
        using lt 1 by (subst findSemi.simps) (simp add: Let_def)
      then show ?thesis using "1.prems" by simp
    next
      case 2
      have "findSemi A j ls = findSemi A (j + 1) (j + 1)"
        using lt 2 by (subst findSemi.simps) (simp add: Let_def)
      then have "findSemi (A @ 10 # B) (j + 1) (j + 1) =
                 findSemi (A @ 10 # B) (length A + 1) (length A + 1)"
        using "1.IH"(1) lt 2 "1.prems" by simp
      moreover have "findSemi (A @ 10 # B) j ls = findSemi (A @ 10 # B) (j + 1) (j + 1)"
        using lt 2 by (subst findSemi.simps) (simp add: Let_def nth_append)
      ultimately show ?thesis by simp
    next
      case 3
      have "findSemi A j ls = findSemi A (j + 1) ls"
        using lt 3 by (subst findSemi.simps) (simp add: Let_def)
      then have "findSemi (A @ 10 # B) (j + 1) ls =
                 findSemi (A @ 10 # B) (length A + 1) (length A + 1)"
        using "1.IH"(2) lt 3 "1.prems" by simp
      moreover have "findSemi (A @ 10 # B) j ls = findSemi (A @ 10 # B) (j + 1) ls"
        using lt 3 by (subst findSemi.simps) (simp add: Let_def nth_append)
      ultimately show ?thesis by simp
    qed
  qed
qed

lemma findSemi_None_end: "\<not> i < length buf \<Longrightarrow> findSemi buf i ls = (None, i, ls)"
  by (subst findSemi.simps) simp

lemma slice_trunc: "b \<le> length A \<Longrightarrow> slice (A @ C) a b = slice A a b"
  by (simp add: slice_def)


lemma parseChunkIDs_from_skip:
  assumes "i < length buf" "findSemi buf i i = findSemi buf j j"
  shows "parseChunkIDs_from buf i m it = parseChunkIDs_from buf j m it"
proof (cases "j < length buf")
  case True
  have u: "parseChunkIDs_from buf k m it =
      (case findSemi buf k k of
           (None, i1, lineStart) \<Rightarrow> Inr (m, it)
         | (Some semi, i1, lineStart) \<Rightarrow>
             (case parseTemp buf i1 of (tenth, i2) \<Rightarrow>
                (case slice buf lineStart semi of
                   Inl e \<Rightarrow> Inl e
                 | Inr key \<Rightarrow>
                     (case GetOrAdd it key of
                        Inl e \<Rightarrow> Inl e
                      | Inr (cityID, intern') \<Rightarrow>
                          parseChunkIDs_from buf i2 (record_temp m cityID tenth) intern'))))"
    if "k < length buf" for k
    using that by (subst parseChunkIDs_from.simps) simp
  show ?thesis
    by (simp only: u [OF assms(1)] u [OF True] assms(2))
next
  case False
  have "findSemi buf i i = (None, j, j)"
    using assms(2) findSemi_None_end [OF False, of j] by simp
  then show ?thesis
    using parseChunkIDs_from_none [OF assms(1)] parseChunkIDs_from_end [OF False] by simp
qed

lemma parseChunkIDs_from_trunc:
  "i \<le> length A \<Longrightarrow>
   parseChunkIDs_from (A @ 10 # B) i m it =
     (case parseChunkIDs_from A i m it of
        Inl e \<Rightarrow> Inl e
      | Inr (m', it') \<Rightarrow> parseChunkIDs_from (A @ 10 # B) (length A + 1) m' it')"
proof (induction A i m it rule: parseChunkIDs_from.induct)
  case (1 A i m it)
  let ?buf = "A @ 10 # B"
  let ?k = "length A + 1"
  show ?case
  proof (cases "i < length A")
    case False
    then have i: "i = length A" using "1.prems" by simp
    have "findSemi ?buf i i = findSemi ?buf ?k ?k"
      unfolding i by (subst findSemi.simps) (simp add: Let_def)
    then have "parseChunkIDs_from ?buf i m it = parseChunkIDs_from ?buf ?k m it"
      by (intro parseChunkIDs_from_skip) (simp_all add: i)
    then show ?thesis by (simp add: parseChunkIDs_from_end [OF False])
  next
    case True
    then have True': "i < length ?buf" by simp
    obtain s i1 ls where f: "findSemi A i i = (s, i1, ls)" by (cases "findSemi A i i") auto
    show ?thesis
    proof (cases s)
      case None
      have "findSemi ?buf i i = findSemi ?buf ?k ?k"
        using findSemi_trunc_None [of A i i i1 ls B] f None "1.prems" by simp
      then have "parseChunkIDs_from ?buf i m it = parseChunkIDs_from ?buf ?k m it"
        using True' by (intro parseChunkIDs_from_skip)
      moreover have "parseChunkIDs_from A i m it = Inr (m, it)"
        using parseChunkIDs_from_none [OF True, of i1 ls] f None by simp
      ultimately show ?thesis by simp
    next
      case (Some semi)
      have fs: "findSemi A i i = (Some semi, i1, ls)" using f Some by simp
      have fs': "findSemi ?buf i i = (Some semi, i1, ls)"
        using fs by (rule findSemi_trunc_Some)
      have idx: "i \<le> semi" "i1 = semi + 1" "semi < length A"
        using findSemi_index [OF fs] by simp_all
      then have i1: "i1 \<le> length A" by simp
      obtain tenth i2 where t: "parseTemp A i1 = (tenth, i2)" by (cases "parseTemp A i1") auto
      from parseTemp_trunc [OF i1 t, of B]
      have i2: "i2 \<le> length A"
        and t': "parseTemp ?buf i1 = (tenth, i2) \<or>
                 (i2 = length A \<and> parseTemp ?buf i1 = (tenth, ?k))"
        by simp_all
      have sl: "slice ?buf ls semi = slice A ls semi"
        using idx(3) by (intro slice_trunc) simp
      note r = parseChunkIDs_from_step [OF True fs t, of m it]
      show ?thesis
      proof (cases "slice A ls semi")
        case (Inl e)
        have "parseChunkIDs_from ?buf i m it = Inl e"
          using t'
        proof
          assume a: "parseTemp ?buf i1 = (tenth, i2)"
          show ?thesis
            unfolding parseChunkIDs_from_step [OF True' fs' a, of m it] sl Inl by simp
        next
          assume a: "i2 = length A \<and> parseTemp ?buf i1 = (tenth, ?k)"
          show ?thesis
            unfolding parseChunkIDs_from_step [OF True' fs' conjunct2 [OF a], of m it] sl Inl by simp
        qed
        then show ?thesis unfolding r Inl by simp
      next
        case (Inr key)
        show ?thesis
        proof (cases "GetOrAdd it key")
          case (Inl e)
          have "parseChunkIDs_from ?buf i m it = Inl e"
            using t'
          proof
            assume a: "parseTemp ?buf i1 = (tenth, i2)"
            show ?thesis
              unfolding parseChunkIDs_from_step [OF True' fs' a, of m it] sl Inr sum.case Inl by simp
          next
            assume a: "i2 = length A \<and> parseTemp ?buf i1 = (tenth, ?k)"
            show ?thesis
              unfolding parseChunkIDs_from_step [OF True' fs' conjunct2 [OF a], of m it] sl Inr sum.case Inl
              by simp
          qed
          then show ?thesis unfolding r Inr sum.case Inl by simp
        next
          case g: (Inr rr)
          obtain cid it' where rr: "rr = (cid, it')" by (cases rr) auto
          let ?m' = "record_temp m cid tenth"
          have ra: "parseChunkIDs_from A i m it = parseChunkIDs_from A i2 ?m' it'"
            unfolding r Inr sum.case g rr by simp
          have ih: "parseChunkIDs_from ?buf i2 ?m' it' =
                    (case parseChunkIDs_from A i2 ?m' it' of
                       Inl e \<Rightarrow> Inl e
                     | Inr (m', it') \<Rightarrow> parseChunkIDs_from ?buf ?k m' it')"
          proof (rule "1.IH" [of s "(i1, ls)" semi i1 ls tenth i2 key rr cid it'])
            show "i < length A" by (rule True)
            show "(s, i1, ls) = findSemi A i i" by (rule f [symmetric])
            show "s = Some semi" by (rule Some)
            show "(i1, ls) = (i1, ls)" by (rule refl)
            show "(tenth, i2) = parseTemp A i1" by (rule t [symmetric])
            show "slice A ls semi = Inr key" by (rule Inr)
            show "GetOrAdd it key = Inr rr" by (rule g)
            show "(cid, it') = rr" by (rule rr [symmetric])
            show "i2 \<le> length A" by (rule i2)
          qed
          show ?thesis
            using t'
          proof
            assume a: "parseTemp ?buf i1 = (tenth, i2)"
            have "parseChunkIDs_from ?buf i m it = parseChunkIDs_from ?buf i2 ?m' it'"
              unfolding parseChunkIDs_from_step [OF True' fs' a, of m it] sl Inr sum.case g rr by simp
            then show ?thesis unfolding ra ih by simp
          next
            assume a: "i2 = length A \<and> parseTemp ?buf i1 = (tenth, ?k)"
            have "parseChunkIDs_from ?buf i m it = parseChunkIDs_from ?buf ?k ?m' it'"
              unfolding parseChunkIDs_from_step [OF True' fs' conjunct2 [OF a], of m it] sl Inr sum.case g rr
              by simp
            moreover have "parseChunkIDs_from A i2 ?m' it' = Inr (?m', it')"
              using a by (intro parseChunkIDs_from_end) simp
            ultimately show ?thesis unfolding ra by simp
          qed
        qed
      qed
    qed
  qed
qed

text \<open>
  Scanning a buffer that has a line feed at some place amounts to scanning the part before
  the line feed and then, with the map and the interner so reached, the part after it.
\<close>

lemma parseChunkIDs_append:
  "parseChunkIDs (A @ 10 # B) m it =
     (case parseChunkIDs A m it of
        Inl e \<Rightarrow> Inl e
      | Inr (m', it') \<Rightarrow> parseChunkIDs B m' it')"
proof -
  have "parseChunkIDs_from (A @ 10 # B) (length A + 1) m' it' = parseChunkIDs_from B 0 m' it'" for m' it'
    using parseChunkIDs_from_shift [of "A @ [10]" B 0 m' it'] by simp
  then show ?thesis
    using parseChunkIDs_from_trunc [of 0 A B m it]
    by (simp add: parseChunkIDs_def split: sum.splits prod.splits)
qed

lemma parseChunkIDs_Nil: "parseChunkIDs [] m it = Inr (m, it)"
  by (simp add: parseChunkIDs_def parseChunkIDs_from_end)

lemma findSemi_no_semi:
  "59 \<notin> set (drop j l) \<Longrightarrow> 10 \<notin> set (drop j l) \<Longrightarrow> findSemi l j ls = (None, max j (length l), ls)"
proof (induction l j ls rule: findSemi.induct)
  case (1 l j ls)
  show ?case
  proof (cases "j < length l")
    case True
    then have d: "drop j l = l ! j # drop (j + 1) l" by (simp add: Cons_nth_drop_Suc)
    then have n: "l ! j \<noteq> 59" "l ! j \<noteq> 10" "59 \<notin> set (drop (j + 1) l)" "10 \<notin> set (drop (j + 1) l)"
      using "1.prems" by auto
    have "findSemi l j ls = findSemi l (j + 1) ls"
      using True n by (subst findSemi.simps) (simp add: Let_def)
    also have "\<dots> = (None, max (j + 1) (length l), ls)"
      using "1.IH"(2) True n by simp
    finally show ?thesis using True by (simp add: max_def)
  next
    case False
    then show ?thesis by (subst findSemi.simps) (simp add: max_def)
  qed
qed

text \<open>A line with no semicolon leaves the map and the interner as they are.\<close>

lemma parseChunkIDs_no_semi:
  assumes "59 \<notin> set l" "10 \<notin> set l"
  shows "parseChunkIDs l m it = Inr (m, it)"
proof (cases "0 < length l")
  case True
  have "findSemi l 0 0 = (None, max 0 (length l), 0)"
    using assms by (intro findSemi_no_semi) simp_all
  then show ?thesis
    using parseChunkIDs_from_none [OF True] by (simp add: parseChunkIDs_def)
next
  case False
  then show ?thesis by (simp add: parseChunkIDs_Nil)
qed


subsection \<open>What one line contributes\<close>

lemma findSemi_key:
  assumes "59 \<notin> set key" "10 \<notin> set key" "j \<le> length key"
  shows "findSemi (key @ 59 # rest) j ls = (Some (length key), length key + 1, ls)"
  using assms(3)
proof (induction "length key - j" arbitrary: j)
  case 0
  then have "j = length key" by simp
  then show ?case by (subst findSemi.simps) (simp add: Let_def)
next
  case (Suc n)
  then have lt: "j < length key" by simp
  then have "key ! j \<in> set key" by simp
  then have n: "key ! j \<noteq> 59" "key ! j \<noteq> 10" using assms(1,2) by auto
  have "findSemi (key @ 59 # rest) j ls = findSemi (key @ 59 # rest) (j + 1) ls"
    using lt n by (subst findSemi.simps) (simp add: Let_def nth_append)
  also have "\<dots> = (Some (length key), length key + 1, ls)"
    using Suc.hyps(2) lt by (intro Suc.hyps(1)) simp_all
  finally show ?case .
qed

lemma skipLine_no_nl:
  "10 \<notin> set (drop j l) \<Longrightarrow> skipLine l j = max j (length l)"
proof (induction l j rule: skipLine.induct)
  case (1 l j)
  show ?case
  proof (cases "j < length l")
    case True
    then have d: "drop j l = l ! j # drop (j + 1) l" by (simp add: Cons_nth_drop_Suc)
    then have n: "l ! j \<noteq> 10" "10 \<notin> set (drop (j + 1) l)"
      using "1.prems" by auto
    have "skipLine l j = skipLine l (j + 1)"
      using True n by (subst skipLine.simps) simp
    also have "\<dots> = max (j + 1) (length l)"
      using "1.IH" True n by simp
    finally show ?thesis using True by (simp add: max_def)
  next
    case False
    then show ?thesis by (subst skipLine.simps) (simp add: max_def)
  qed
qed

lemma parseTemp_end:
  assumes "10 \<notin> set (drop j l)" "j \<le> length l"
  shows "snd (parseTemp l j) = length l"
proof -
  obtain sg i1 where s1: "parseSign l j = (sg, i1)" by (cases "parseSign l j") auto
  have b1: "i1 \<le> length l" using parseSign_bound [OF assms(2)] s1 by simp
  have g1: "j \<le> i1" using s1 by (rule parseSign_index)
  obtain ip i3 where s2: "intPartLoop l i1 0 = (ip, i3)" by (cases "intPartLoop l i1 0") auto
  have b2: "i3 \<le> length l" using intPartLoop_bound [OF b1, of 0] s2 by simp
  have g2: "i1 \<le> i3" using s2 by (rule intPartLoop_index)
  have b3: "skipPoint l i3 \<le> length l" using b2 by (rule skipPoint_bound)
  have g3: "i3 \<le> skipPoint l i3" by (rule skipPoint_index)
  obtain dd i4 where s4: "parseDecDigit l (skipPoint l i3) = (dd, i4)"
    by (cases "parseDecDigit l (skipPoint l i3)") auto
  have b4: "i4 \<le> length l" using parseDecDigit_bound [OF b3] s4 by simp
  have g4: "skipPoint l i3 \<le> i4" using s4 by (rule parseDecDigit_index)
  have "j \<le> i4" using g1 g2 g3 g4 by simp
  then have "set (drop i4 l) \<subseteq> set (drop j l)" by (rule set_drop_subset_set_drop)
  then have "10 \<notin> set (drop i4 l)" using assms(1) by auto
  then have "skipLine l i4 = length l" using b4 by (simp add: skipLine_no_nl max_def)
  then show ?thesis by (simp add: parseTemp_def s1 s2 s4 skipNewline_def)
qed

text \<open>
  A buffer that is one line \<open>key;val\<close>, unterminated: the key is interned and the value
  that \<open>parseTemp\<close> reads from \<open>val\<close> is recorded under it.
\<close>

lemma parseChunkIDs_line:
  assumes "59 \<notin> set key" "10 \<notin> set key" "10 \<notin> set val"
  shows "parseChunkIDs (key @ 59 # val) m it =
           (case GetOrAdd it key of
              Inl e \<Rightarrow> Inl e
            | Inr (cid, it') \<Rightarrow> Inr (record_temp m cid (fst (parseTemp val 0)), it'))"
proof -
  let ?l = "key @ 59 # val"
  have lt: "0 < length ?l" by simp
  have f: "findSemi ?l 0 0 = (Some (length key), length key + 1, 0)"
    using assms(1,2) by (intro findSemi_key) simp_all
  have "snd (parseTemp val 0) = length val"
    using assms(3) by (intro parseTemp_end) simp_all
  then have pv: "parseTemp val 0 = (fst (parseTemp val 0), length val)"
    by (metis prod.collapse)
  have "parseTemp ((key @ [59]) @ val) (length (key @ [59]) + 0) =
               (fst (parseTemp val 0), length (key @ [59]) + length val)"
    by (subst parseTemp_shift, subst pv) simp
  then have t: "parseTemp ?l (length key + 1) = (fst (parseTemp val 0), length ?l)"
    by simp
  have sl: "slice ?l 0 (length key) = Inr key" by (simp add: slice_def)
  have e: "parseChunkIDs_from ?l (length ?l) m' it' = Inr (m', it')" for m' it'
    by (intro parseChunkIDs_from_end) simp
  show ?thesis
    unfolding parseChunkIDs_def parseChunkIDs_from_step [OF lt f t, of m it] sl sum.case
    using e by (simp split: sum.splits)
qed

lemma parseTemp_not_numeric:
  assumes "val = [] \<or> (hd val \<noteq> 45 \<and> hd val \<noteq> 43 \<and> hd val \<noteq> 46 \<and> \<not> (48 \<le> hd val \<and> hd val \<le> 57))"
  shows "fst (parseTemp val 0) = 0"
proof (cases val)
  case Nil
  have "intPartLoop [] 0 0 = (0, 0)" by (subst intPartLoop.simps) simp
  then show ?thesis using Nil
    by (simp add: parseTemp_def parseSign_def skipPoint_def parseDecDigit_def)
next
  case (Cons c cs)
  then have c: "c \<noteq> 45" "c \<noteq> 43" "c \<noteq> 46" "\<not> (48 \<le> c \<and> c \<le> 57)"
    using assms by auto
  have "intPartLoop (c # cs) 0 0 = (0, 0)"
    using c by (subst intPartLoop.simps) (auto simp: Let_def)
  then show ?thesis using Cons c
    by (auto simp: parseTemp_def parseSign_def skipPoint_def parseDecDigit_def Let_def)
qed


lemma parseChunkIDs_terminated:
  "parseChunkIDs (buf @ [10]) m it = parseChunkIDs buf m it"
  using parseChunkIDs_append [of buf "[]" m it]
  by (simp add: parseChunkIDs_Nil split: sum.splits)

lemma parseChunkIDs_after_lines:
  assumes "pre = [] \<or> last pre = 10"
  shows "parseChunkIDs (pre @ B) m it =
           (case parseChunkIDs pre m it of
              Inl e \<Rightarrow> Inl e
            | Inr (m', it') \<Rightarrow> parseChunkIDs B m' it')"
proof (cases "pre = []")
  case True
  then show ?thesis by (simp add: parseChunkIDs_Nil)
next
  case False
  then have "pre = butlast pre @ [10]"
    using assms by (metis append_butlast_last_id)
  then obtain A where A: "pre = A @ [10]" by blast
  show ?thesis
    unfolding A using parseChunkIDs_append [of A B m it]
    by (simp add: parseChunkIDs_terminated)
qed

lemma chunkBounds_one: "chunkBounds data 1 0 = Inr (0, length data)"
  by (simp add: chunkBounds_def)

lemma partitions_one: "partitions data 1 = Inr [data]"
  using chunkBounds_one [of data] by (simp add: partitions_def chunkSlice_def slice_def)

text \<open>
  C8 (a last line with no line feed). Let the buffer end with a line \<open>key;val\<close> that has no
  line feed after it, after nothing or after complete lines \<open>pre\<close>. Then the scan does what
  it does on \<open>pre\<close> and then interns \<open>key\<close> and records under its identifier the value
  that \<open>parseTemp\<close> reads from \<open>val\<close>: the entry of that identifier is created with count
  1, or its count goes up by one and its minimum, maximum and sum take the value in. The
  outcome is the one of the same buffer with the line feed added. A file that is this one
  line is reported by the run as one record for \<open>key\<close>. For every buffer at all, the scan
  and the one-worker run are the same with and without a line feed added at the end.
\<close>

theorem C8_unterminated_last_line:
  assumes "59 \<notin> set key" "10 \<notin> set key" "10 \<notin> set val" "pre = [] \<or> last pre = 10"
  shows "parseChunkIDs (pre @ key @ 59 # val) m intern =
           (case parseChunkIDs pre m intern of
              Inl e \<Rightarrow> Inl e
            | Inr (m1, it1) \<Rightarrow>
                (case GetOrAdd it1 key of
                   Inl e \<Rightarrow> Inl e
                 | Inr (cid, it2) \<Rightarrow> Inr (record_temp m1 cid (fst (parseTemp val 0)), it2))) \<and>
         map_of (record_temp m1 cid t) cid =
           Some (case map_of m1 cid of
                   None \<Rightarrow> \<lparr>min_stat = t, max_stat = t, sum_stat = scast t, count_stat = 1\<rparr>
                 | Some st \<Rightarrow>
                     \<lparr>min_stat = (if t <s min_stat st then t else min_stat st),
                      max_stat = (if max_stat st <s t then t else max_stat st),
                      sum_stat = sum_stat st + scast t,
                      count_stat = count_stat st + 1\<rparr>) \<and>
         parseChunkIDs (pre @ key @ 59 # val) m intern =
           parseChunkIDs (pre @ key @ 59 # val @ [10]) m intern \<and>
         pipeline (key @ 59 # val) 1 =
           Inr [(key, \<lparr>min_stat = fst (parseTemp val 0), max_stat = fst (parseTemp val 0),
                       sum_stat = scast (fst (parseTemp val 0)), count_stat = 1\<rparr>)] \<and>
         parseChunkIDs buf m intern = parseChunkIDs (buf @ [10]) m intern \<and>
         pipeline buf 1 = pipeline (buf @ [10]) 1"
proof -
  have a: "parseChunkIDs (pre @ key @ 59 # val) m intern =
           (case parseChunkIDs pre m intern of
              Inl e \<Rightarrow> Inl e
            | Inr (m1, it1) \<Rightarrow>
                (case GetOrAdd it1 key of
                   Inl e \<Rightarrow> Inl e
                 | Inr (cid, it2) \<Rightarrow> Inr (record_temp m1 cid (fst (parseTemp val 0)), it2)))"
    using parseChunkIDs_after_lines [OF assms(4), of "key @ 59 # val" m intern]
      parseChunkIDs_line [OF assms(1,2,3)]
    by (simp split: sum.splits)
  have b: "map_of (record_temp m1 cid t) cid =
           Some (case map_of m1 cid of
                   None \<Rightarrow> \<lparr>min_stat = t, max_stat = t, sum_stat = scast t, count_stat = 1\<rparr>
                 | Some st \<Rightarrow>
                     \<lparr>min_stat = (if t <s min_stat st then t else min_stat st),
                      max_stat = (if max_stat st <s t then t else max_stat st),
                      sum_stat = sum_stat st + scast t,
                      count_stat = count_stat st + 1\<rparr>)"
    by (simp add: record_temp_def update_conv' split: option.splits)
  have c: "parseChunkIDs (pre @ key @ 59 # val) m intern =
           parseChunkIDs (pre @ key @ 59 # val @ [10]) m intern"
    using parseChunkIDs_terminated [of "pre @ key @ 59 # val" m intern] by simp
  have "parseChunkIDs (key @ 59 # val) [] newIntern =
          Inr (record_temp [] 0 (fst (parseTemp val 0)),
               \<lparr>shards = (\<lambda>i. Map.empty)(unat (fnv1a64 key AND 255) := [fnv1a64 key \<mapsto> [0]]),
                names = [key]\<rparr>)"
    by (simp add: parseChunkIDs_line [OF assms(1,2,3)] GetOrAdd_fresh)
  then have d: "pipeline (key @ 59 # val) 1 =
           Inr [(key, \<lparr>min_stat = fst (parseTemp val 0), max_stat = fst (parseTemp val 0),
                       sum_stat = scast (fst (parseTemp val 0)), count_stat = 1\<rparr>)]"
    using partitions_one [of "key @ 59 # val"]
    by (simp add: pipeline_def record_temp_def merge_locals_def merge_entry_def Name_def)
  have e: "pipeline buf 1 = pipeline (buf @ [10]) 1"
    using partitions_one [of buf] partitions_one [of "buf @ [10]"]
    by (simp add: pipeline_def parseChunkIDs_terminated)
  show ?thesis using a b c d e parseChunkIDs_terminated [of buf m intern] by simp
qed

theorem C8_unterminated_last_line_witness:
  "parseChunkIDs (bytes ''A;1.0\<newline>'' @ bytes ''B'' @ 59 # bytes ''2.5'') [] newIntern =
     (case parseChunkIDs (bytes ''A;1.0\<newline>'') [] newIntern of
        Inl e \<Rightarrow> Inl e
      | Inr (m1, it1) \<Rightarrow>
          (case GetOrAdd it1 (bytes ''B'') of
             Inl e \<Rightarrow> Inl e
           | Inr (cid, it2) \<Rightarrow> Inr (record_temp m1 cid (fst (parseTemp (bytes ''2.5'') 0)), it2))) \<and>
   fst (parseTemp (bytes ''2.5'') 0) = 25 \<and>
   pipeline (bytes ''B'' @ 59 # bytes ''2.5'') 1 =
     Inr [(bytes ''B'', \<lparr>min_stat = 25, max_stat = 25, sum_stat = 25, count_stat = 1\<rparr>)] \<and>
   main 1 (Some (bytes ''A;1.0\<newline>B;2.5'')) =
     Inr [(bytes ''A'', \<lparr>min_stat = 10, max_stat = 10, sum_stat = 10, count_stat = 1\<rparr>),
          (bytes ''B'', \<lparr>min_stat = 25, max_stat = 25, sum_stat = 25, count_stat = 1\<rparr>)] \<and>
   main 2 (Some (bytes ''A;1.0\<newline>B;2.5'')) =
     Inr [(bytes ''A'', \<lparr>min_stat = 10, max_stat = 10, sum_stat = 10, count_stat = 1\<rparr>),
          (bytes ''B'', \<lparr>min_stat = 25, max_stat = 25, sum_stat = 25, count_stat = 1\<rparr>)]"
proof -
  have h: "59 \<notin> set (bytes ''B'')" "10 \<notin> set (bytes ''B'')" "10 \<notin> set (bytes ''2.5'')"
    "bytes ''A;1.0\<newline>'' = [] \<or> last (bytes ''A;1.0\<newline>'') = 10"
    by (simp_all add: bytes_def)
  have v: "fst (parseTemp (bytes ''2.5'') 0) = 25" by code_simp
  have r: "main 1 (Some (bytes ''A;1.0\<newline>B;2.5'')) =
     Inr [(bytes ''A'', \<lparr>min_stat = 10, max_stat = 10, sum_stat = 10, count_stat = 1\<rparr>),
          (bytes ''B'', \<lparr>min_stat = 25, max_stat = 25, sum_stat = 25, count_stat = 1\<rparr>)]"
    "main 2 (Some (bytes ''A;1.0\<newline>B;2.5'')) =
     Inr [(bytes ''A'', \<lparr>min_stat = 10, max_stat = 10, sum_stat = 10, count_stat = 1\<rparr>),
          (bytes ''B'', \<lparr>min_stat = 25, max_stat = 25, sum_stat = 25, count_stat = 1\<rparr>)]"
    by code_simp+
  from C8_unterminated_last_line [OF h, of "[]" newIntern] v r
  show ?thesis by simp
qed

text \<open>
  C4, amended. A line with no semicolon (the empty line included), between other lines or
  unterminated at the end of the buffer, changes nothing: the scan gives the same map,
  interner or panic as the scan of the buffer without that line. A line \<open>key;val\<close> is
  always recorded under \<open>key\<close>, with the value \<open>parseTemp\<close> reads from \<open>val\<close>; that value
  is 0 when \<open>val\<close> is empty or starts with a byte that is no sign, digit or point.
\<close>

theorem C4_line_without_delimiter_skipped:
  assumes "59 \<notin> set l" "10 \<notin> set l" "pre = [] \<or> last pre = 10"
  shows "parseChunkIDs (pre @ l @ 10 # post) m intern = parseChunkIDs (pre @ post) m intern \<and>
         parseChunkIDs (pre @ l) m intern = parseChunkIDs pre m intern \<and>
         (59 \<notin> set key \<and> 10 \<notin> set key \<and> 10 \<notin> set val \<longrightarrow>
            parseChunkIDs (pre @ key @ 59 # val @ 10 # post) m intern =
              (case parseChunkIDs pre m intern of
                 Inl e \<Rightarrow> Inl e
               | Inr (m1, it1) \<Rightarrow>
                   (case GetOrAdd it1 key of
                      Inl e \<Rightarrow> Inl e
                    | Inr (cid, it2) \<Rightarrow>
                        parseChunkIDs post (record_temp m1 cid (fst (parseTemp val 0))) it2))) \<and>
         (val = [] \<or> (hd val \<noteq> 45 \<and> hd val \<noteq> 43 \<and> hd val \<noteq> 46 \<and> \<not> (48 \<le> hd val \<and> hd val \<le> 57)) \<longrightarrow>
            fst (parseTemp val 0) = 0)"
proof -
  have skip: "parseChunkIDs l m' it' = Inr (m', it')" for m' it'
    using assms(1,2) by (rule parseChunkIDs_no_semi)
  have 1: "parseChunkIDs (l @ 10 # post) m' it' = parseChunkIDs post m' it'" for m' it'
    using parseChunkIDs_append [of l post m' it'] by (simp add: skip)
  have a: "parseChunkIDs (pre @ l @ 10 # post) m intern = parseChunkIDs (pre @ post) m intern"
    by (simp add: parseChunkIDs_after_lines [OF assms(3)] 1 split: sum.splits)
  have b: "parseChunkIDs (pre @ l) m intern = parseChunkIDs pre m intern"
    by (simp add: parseChunkIDs_after_lines [OF assms(3), of l] skip split: sum.splits)
  have c: "parseChunkIDs (pre @ key @ 59 # val @ 10 # post) m intern =
              (case parseChunkIDs pre m intern of
                 Inl e \<Rightarrow> Inl e
               | Inr (m1, it1) \<Rightarrow>
                   (case GetOrAdd it1 key of
                      Inl e \<Rightarrow> Inl e
                    | Inr (cid, it2) \<Rightarrow>
                        parseChunkIDs post (record_temp m1 cid (fst (parseTemp val 0))) it2))"
    if k: "59 \<notin> set key \<and> 10 \<notin> set key \<and> 10 \<notin> set val"
  proof -
    have "parseChunkIDs ((key @ 59 # val) @ 10 # post) m' it' =
            (case GetOrAdd it' key of
               Inl e \<Rightarrow> Inl e
             | Inr (cid, it2) \<Rightarrow>
                 parseChunkIDs post (record_temp m' cid (fst (parseTemp val 0))) it2)" for m' it'
      using k parseChunkIDs_append [of "key @ 59 # val" post m' it']
      by (simp add: parseChunkIDs_line split: sum.splits)
    then show ?thesis
      using parseChunkIDs_after_lines [OF assms(3), of "key @ 59 # val @ 10 # post" m intern]
      by (simp split: sum.splits)
  qed
  show ?thesis using a b c parseTemp_not_numeric [of val] by blast
qed

theorem C4_line_without_delimiter_skipped_witness:
  "parseChunkIDs (bytes ''A;1.0\<newline>'' @ bytes ''xx'' @ 10 # bytes ''B;2.0\<newline>'') [] newIntern =
     parseChunkIDs (bytes ''A;1.0\<newline>'' @ bytes ''B;2.0\<newline>'') [] newIntern \<and>
   parseChunkIDs (bytes ''A;1.0\<newline>'' @ bytes ''xx'') [] newIntern =
     parseChunkIDs (bytes ''A;1.0\<newline>'') [] newIntern \<and>
   parseChunkIDs (bytes ''A;1.0\<newline>'' @ bytes ''C'' @ 59 # bytes ''notanumber'' @ 10 # bytes ''B;2.0\<newline>'')
       [] newIntern =
     (case parseChunkIDs (bytes ''A;1.0\<newline>'') [] newIntern of
        Inl e \<Rightarrow> Inl e
      | Inr (m1, it1) \<Rightarrow>
          (case GetOrAdd it1 (bytes ''C'') of
             Inl e \<Rightarrow> Inl e
           | Inr (cid, it2) \<Rightarrow>
               parseChunkIDs (bytes ''B;2.0\<newline>'')
                 (record_temp m1 cid (fst (parseTemp (bytes ''notanumber'') 0))) it2)) \<and>
   fst (parseTemp (bytes ''notanumber'') 0) = 0 \<and>
   main 1 (Some (bytes ''A;1.0\<newline>\<newline>xx\<newline>B;2.0\<newline>yy'')) =
     Inr [(bytes ''A'', \<lparr>min_stat = 10, max_stat = 10, sum_stat = 10, count_stat = 1\<rparr>),
          (bytes ''B'', \<lparr>min_stat = 20, max_stat = 20, sum_stat = 20, count_stat = 1\<rparr>)]"
proof -
  have h: "59 \<notin> set (bytes ''xx'')" "10 \<notin> set (bytes ''xx'')"
    "bytes ''A;1.0\<newline>'' = [] \<or> last (bytes ''A;1.0\<newline>'') = 10"
    by (simp_all add: bytes_def)
  have k: "59 \<notin> set (bytes ''C'') \<and> 10 \<notin> set (bytes ''C'') \<and> 10 \<notin> set (bytes ''notanumber'')"
    by (simp add: bytes_def)
  have v: "bytes ''notanumber'' = [] \<or>
      (hd (bytes ''notanumber'') \<noteq> 45 \<and> hd (bytes ''notanumber'') \<noteq> 43 \<and>
       hd (bytes ''notanumber'') \<noteq> 46 \<and>
       \<not> (48 \<le> hd (bytes ''notanumber'') \<and> hd (bytes ''notanumber'') \<le> 57))"
    by (simp add: bytes_def)
  have r: "main 1 (Some (bytes ''A;1.0\<newline>\<newline>xx\<newline>B;2.0\<newline>yy'')) =
     Inr [(bytes ''A'', \<lparr>min_stat = 10, max_stat = 10, sum_stat = 10, count_stat = 1\<rparr>),
          (bytes ''B'', \<lparr>min_stat = 20, max_stat = 20, sum_stat = 20, count_stat = 1\<rparr>)]"
    by code_simp
  from C4_line_without_delimiter_skipped [OF h, of "bytes ''B;2.0\<newline>''" "[]" newIntern
      "bytes ''C''" "bytes ''notanumber''"] k v r
  show ?thesis by blast
qed

section \<open>Partitioner: the ranges and the line feeds between them\<close>

lemma alignEnd_ge: "e \<le> alignEnd data e"
proof (induction data e rule: alignEnd.induct)
  case (1 data e)
  show ?case
  proof (cases "e < length data \<and> data ! e \<noteq> 10")
    case True
    have "alignEnd data e = alignEnd data (e + 1)"
      using True by (subst alignEnd.simps) simp
    then show ?thesis using "1.IH" True by simp
  next
    case False
    then show ?thesis by (subst alignEnd.simps) auto
  qed
qed

lemma alignEnd_le: "e \<le> length data \<Longrightarrow> alignEnd data e \<le> length data"
proof (induction data e rule: alignEnd.induct)
  case (1 data e)
  show ?case
  proof (cases "e < length data \<and> data ! e \<noteq> 10")
    case True
    have "alignEnd data e = alignEnd data (e + 1)"
      using True by (subst alignEnd.simps) simp
    then show ?thesis using "1.IH" True by simp
  next
    case False
    then show ?thesis using "1.prems" by (subst alignEnd.simps) auto
  qed
qed

lemma alignEnd_first:
  "e \<le> p \<Longrightarrow> p < length data \<Longrightarrow> data ! p = 10 \<Longrightarrow>
   alignEnd data e \<le> p \<and> data ! alignEnd data e = 10"
proof (induction data e rule: alignEnd.induct)
  case (1 data e)
  show ?case
  proof (cases "data ! e = 10")
    case True
    then have "alignEnd data e = e" by (subst alignEnd.simps) simp
    then show ?thesis using True "1.prems" by simp
  next
    case False
    then have ne: "e \<noteq> p" using "1.prems" by auto
    then have lt: "e < length data" "e + 1 \<le> p" using "1.prems" by simp_all
    have "alignEnd data e = alignEnd data (e + 1)"
      using False lt by (subst alignEnd.simps) simp
    then show ?thesis using "1.IH" False lt "1.prems" by simp
  qed
qed

lemma alignStart_found:
  "s \<le> p \<Longrightarrow> p < e \<Longrightarrow> e \<le> length data \<Longrightarrow> data ! p = 10 \<Longrightarrow>
   alignStart data s e = Inr (alignEnd data s)"
proof (induction data s e rule: alignStart.induct)
  case (1 data s e)
  have lt: "s < e" "s < length data" using "1.prems" by simp_all
  show ?case
  proof (cases "data ! s = 10")
    case True
    have "alignStart data s e = Inr s" using True lt by (subst alignStart.simps) simp
    moreover have "alignEnd data s = s" using True by (subst alignEnd.simps) simp
    ultimately show ?thesis by simp
  next
    case False
    then have "s \<noteq> p" using "1.prems" by auto
    then have sp: "s + 1 \<le> p" using "1.prems" by simp
    have "alignStart data s e = alignStart data (s + 1) e"
      using False lt by (subst alignStart.simps) simp
    also have "\<dots> = Inr (alignEnd data (s + 1))"
      using "1.IH" [OF lt False sp] "1.prems" by simp
    also have "alignEnd data (s + 1) = alignEnd data s"
      using False lt by (subst (2) alignEnd.simps) simp
    finally show ?thesis .
  qed
qed

lemma join_lf_snoc: "xs \<noteq> [] \<Longrightarrow> join_lf (xs @ [p]) = join_lf xs @ 10 # p"
  by (induction xs rule: join_lf.induct) simp_all

lemma join_lf_tiles:
  assumes "S 0 = 0" "0 < k"
    and "\<forall>i < k. S i \<le> E i \<and> E i \<le> length data"
    and "\<forall>i. i + 1 < k \<longrightarrow> S (i + 1) = E i + 1 \<and> E i < length data \<and> data ! E i = 10"
  shows "join_lf (map (\<lambda>i. take (E i - S i) (drop (S i) data)) [0..<k]) = take (E (k - 1)) data"
  using assms(2,3,4)
proof (induction k)
  case 0
  then show ?case by simp
next
  case (Suc k)
  show ?case
  proof (cases "k = 0")
    case True
    then show ?thesis using assms(1) by simp
  next
    case False
    then have k: "0 < k" by simp
    have ih: "join_lf (map (\<lambda>i. take (E i - S i) (drop (S i) data)) [0..<k]) = take (E (k - 1)) data"
      using Suc.prems by (intro Suc.IH [OF k]) auto
    have link: "S k = E (k - 1) + 1" "E (k - 1) < length data" "data ! E (k - 1) = 10"
      using Suc.prems(3) k by (auto dest: spec [of _ "k - 1"])
    have b: "S k \<le> E k" "E k \<le> length data" using Suc.prems(2) by auto
    have ne: "map (\<lambda>i. take (E i - S i) (drop (S i) data)) [0..<k] \<noteq> []" using k by simp
    have "join_lf (map (\<lambda>i. take (E i - S i) (drop (S i) data)) [0..<Suc k]) =
          take (E (k - 1)) data @ 10 # take (E k - S k) (drop (S k) data)"
      using join_lf_snoc [OF ne] ih by simp
    also have "take (E (k - 1)) data @ [10] = take (S k) data"
      using link by (simp add: take_Suc_conv_app_nth)
    then have "take (E (k - 1)) data @ 10 # take (E k - S k) (drop (S k) data) =
               take (S k) data @ take (E k - S k) (drop (S k) data)"
      by (metis append.assoc append_Cons append_Nil)
    also have "\<dots> = take (S k + (E k - S k)) data"
      by (simp add: take_add)
    also have "S k + (E k - S k) = E k" using b by simp
    finally show ?thesis by simp
  qed
qed


lemma collect_map_Inr:
  "\<forall>x \<in> set xs. g x = Inr (f x) \<Longrightarrow> collect (map g xs) = Inr (map f xs)"
  by (induction xs) simp_all

lemma naive_end_le:
  assumes "i < workers"
  shows "(i + 1) * (length data div workers) \<le> length data"
proof -
  have "(i + 1) * (length data div workers) \<le> workers * (length data div workers)"
    using assms by (intro mult_le_mono1) simp
  also have "\<dots> \<le> length data" by simp
  finally show ?thesis .
qed

lemma chunkBounds_aligned:
  assumes w: "i < workers"
    and lf: "0 < i \<longrightarrow> (\<exists>p. i * (length data div workers) \<le> p \<and>
              p < (if i = workers - 1 then length data else (i + 1) * (length data div workers)) \<and>
              data ! p = 10)"
  shows "chunkBounds data workers i =
           Inr (if i = 0 then 0 else alignEnd data (i * (length data div workers)) + 1,
                if i < workers - 1 then alignEnd data ((i + 1) * (length data div workers))
                else length data)"
proof (cases "i = 0")
  case True
  then show ?thesis by (simp add: chunkBounds_def Let_def)
next
  case False
  let ?c = "length data div workers"
  define e where "e = (if i = workers - 1 then length data else i * ?c + ?c)"
  from False lf obtain p where p: "i * ?c \<le> p" "p < e" "data ! p = 10"
    unfolding e_def by (auto split: if_splits)
  have e: "e \<le> length data"
    unfolding e_def using naive_end_le [OF w, of data] by simp
  have a: "alignStart data (i * ?c) e = Inr (alignEnd data (i * ?c))"
    using p e by (intro alignStart_found [of _ p]) simp_all
  have "p < length data" using p(2) e by simp
  then have "alignEnd data (i * ?c) \<le> p"
    using alignEnd_first [OF p(1) _ p(3)] by simp
  then have "alignEnd data (i * ?c) < e" using p(2) by simp
  then have st: "stepOver (alignEnd data (i * ?c)) e = alignEnd data (i * ?c) + 1"
    by (simp add: stepOver_def)
  have last: "i < workers - 1 \<longleftrightarrow> i \<noteq> workers - 1" using w by auto
  have "chunkBounds data workers i =
          (case (case alignStart data (i * ?c) e of
                   Inl x \<Rightarrow> Inl x
                 | Inr start' \<Rightarrow> Inr (stepOver start' e)) of
             Inl x \<Rightarrow> Inl x
           | Inr start' \<Rightarrow> Inr (start', if i < workers - 1 then alignEnd data e else e))"
    using False unfolding e_def by (simp add: chunkBounds_def Let_def)
  also have "\<dots> = Inr (alignEnd data (i * ?c) + 1, if i < workers - 1 then alignEnd data e else e)"
    using a st by simp
  also have "(if i < workers - 1 then alignEnd data e else e) =
             (if i < workers - 1 then alignEnd data ((i + 1) * ?c) else length data)"
    unfolding e_def using last by (simp add: add.commute)
  finally show ?thesis using False by simp
qed

text \<open>
  The ranges under the condition that every worker after the first finds a line feed
  inside its own naive chunk.
\<close>

lemma partitions_tile:
  assumes w: "0 < workers"
    and lf: "\<forall>i. 0 < i \<and> i < workers \<longrightarrow>
               (\<exists>p. i * (length data div workers) \<le> p \<and>
                    p < (if i = workers - 1 then length data
                         else (i + 1) * (length data div workers)) \<and>
                    data ! p = 10)"
  shows "\<exists>ps. partitions data workers = Inr ps \<and> length ps = workers \<and> join_lf ps = data \<and>
           (\<forall>i. i + 1 < workers \<longrightarrow>
              (\<exists>s e e'. chunkBounds data workers i = Inr (s, e) \<and>
                         chunkBounds data workers (i + 1) = Inr (e + 1, e') \<and>
                         s \<le> e \<and> e < length data \<and> data ! e = 10))"
proof -
  let ?c = "length data div workers"
  let ?n = "length data"
  define S where "S i = (if i = 0 then 0 else alignEnd data (i * ?c) + 1)" for i
  define E where "E i = (if i < workers - 1 then alignEnd data ((i + 1) * ?c) else ?n)" for i
  have cb: "chunkBounds data workers i = Inr (S i, E i)" if "i < workers" for i
    unfolding S_def E_def using that lf by (intro chunkBounds_aligned) auto
  have nl: "alignEnd data (i * ?c) < (if i = workers - 1 then ?n else (i + 1) * ?c) \<and>
            alignEnd data (i * ?c) < ?n \<and> data ! alignEnd data (i * ?c) = 10"
    if "0 < i" "i < workers" for i
  proof -
    from lf that obtain p where p: "i * ?c \<le> p"
      "p < (if i = workers - 1 then ?n else (i + 1) * ?c)" "data ! p = 10" by blast
    have "(if i = workers - 1 then ?n else (i + 1) * ?c) \<le> ?n"
      using naive_end_le [OF that(2), of data] by simp
    then have "p < ?n" using p(2) by simp
    from alignEnd_first [OF p(1) this p(3)] p(2) \<open>p < ?n\<close> show ?thesis by simp
  qed
  have SE: "S i \<le> E i \<and> E i \<le> ?n" if "i < workers" for i
  proof -
    have ne: "(i + 1) * ?c \<le> ?n" using naive_end_le [OF that] .
    have "E i \<le> ?n" unfolding E_def using alignEnd_le [OF ne] by simp
    moreover have "(if i = workers - 1 then ?n else (i + 1) * ?c) \<le> E i"
      unfolding E_def using alignEnd_ge [of "(i + 1) * ?c" data] that by auto
    then have "S i \<le> E i"
      unfolding S_def using nl [of i] that by (cases "i = 0") auto
    ultimately show ?thesis by simp
  qed
  have link: "S (i + 1) = E i + 1 \<and> E i < ?n \<and> data ! E i = 10" if "i + 1 < workers" for i
    unfolding S_def E_def using nl [of "i + 1"] that by simp
  let ?f = "\<lambda>i. take (E i - S i) (drop (S i) data)"
  have "chunkSlice data workers i = Inr (?f i)" if "i < workers" for i
    using cb [OF that] SE [OF that] by (simp add: chunkSlice_def slice_def)
  then have ps: "partitions data workers = Inr (map ?f [0..<workers])"
    unfolding partitions_def by (intro collect_map_Inr) simp
  have "join_lf (map ?f [0..<workers]) = take (E (workers - 1)) data"
    using w SE link by (intro join_lf_tiles) (simp_all add: S_def)
  also have "E (workers - 1) = ?n" by (simp add: E_def)
  finally have j: "join_lf (map ?f [0..<workers]) = data" by simp
  have nb: "\<exists>s e e'. chunkBounds data workers i = Inr (s, e) \<and>
                         chunkBounds data workers (i + 1) = Inr (e + 1, e') \<and>
                         s \<le> e \<and> e < length data \<and> data ! e = 10"
    if "i + 1 < workers" for i
  proof -
    have "i < workers" using that by simp
    from cb [OF this] cb [OF that] SE [OF this] link [OF that]
    show ?thesis by simp
  qed
  from ps j nb show ?thesis by (intro exI [of _ "map ?f [0..<workers]"]) simp
qed

text \<open>
  C6, amended. When every worker after the first finds a line feed inside its own naive
  chunk \<open>[i * chunk, (i + 1) * chunk)\<close> (up to the end of the input for the last worker),
  the partitions are taken without a panic, two neighbours are separated by exactly one
  byte, which is a line feed, and the partitions joined in order with one line feed
  between neighbours are the input: nothing else is left out and nothing is taken twice.
\<close>

theorem C6_partitions_joined_by_line_feeds:
  assumes w: "0 < workers"
    and lf: "\<forall>i. 0 < i \<and> i < workers \<longrightarrow>
               (\<exists>p. i * (length data div workers) \<le> p \<and>
                    p < (if i = workers - 1 then length data
                         else (i + 1) * (length data div workers)) \<and>
                    data ! p = 10)"
  shows "\<exists>ps. partitions data workers = Inr ps \<and> length ps = workers \<and> join_lf ps = data \<and>
           (\<forall>i. i + 1 < workers \<longrightarrow>
              (\<exists>s e e'. chunkBounds data workers i = Inr (s, e) \<and>
                         chunkBounds data workers (i + 1) = Inr (e + 1, e') \<and>
                         s \<le> e \<and> e < length data \<and> data ! e = 10))"
  using w lf by (rule partitions_tile)

theorem C6_partitions_joined_by_line_feeds_witness:
  "partitions (bytes ''A;1\<newline>B;2\<newline>C;3\<newline>'') 2 = Inr [bytes ''A;1\<newline>B;2'', bytes ''C;3\<newline>''] \<and>
   join_lf [bytes ''A;1\<newline>B;2'', bytes ''C;3\<newline>''] = bytes ''A;1\<newline>B;2\<newline>C;3\<newline>'' \<and>
   chunkBounds (bytes ''A;1\<newline>B;2\<newline>C;3\<newline>'') 2 0 = Inr (0, 7) \<and>
   chunkBounds (bytes ''A;1\<newline>B;2\<newline>C;3\<newline>'') 2 1 = Inr (8, 12)"
proof -
  let ?d = "bytes ''A;1\<newline>B;2\<newline>C;3\<newline>''"
  have w: "0 < (2 :: nat)" by simp
  have "6 \<le> (7 :: nat) \<and> 7 < length ?d \<and> ?d ! 7 = 10" by (simp add: bytes_def)
  then have lf: "\<forall>i. 0 < i \<and> i < 2 \<longrightarrow>
               (\<exists>p. i * (length ?d div 2) \<le> p \<and>
                    p < (if i = 2 - 1 then length ?d else (i + 1) * (length ?d div 2)) \<and>
                    ?d ! p = 10)"
    by (auto simp: bytes_def intro!: exI [of _ 7])
  from C6_partitions_joined_by_line_feeds [OF w lf] obtain ps where
    ps: "partitions ?d 2 = Inr ps" "join_lf ps = ?d" by blast
  have e: "partitions ?d 2 = Inr [bytes ''A;1\<newline>B;2'', bytes ''C;3\<newline>'']"
    "chunkBounds ?d 2 0 = Inr (0, 7)" "chunkBounds ?d 2 1 = Inr (8, 12)"
    by code_simp+
  from ps e show ?thesis by simp
qed

section \<open>Workers: several workers against one\<close>

text \<open>The accumulator of a single reading.\<close>

definition single :: "int32 \<Rightarrow> Stat" where
  "single t = \<lparr>min_stat = t, max_stat = t, sum_stat = scast t, count_stat = 1\<rparr>"

lemma record_temp_merge_entry: "record_temp m c t = merge_entry m (c, single t)"
  by (simp add: record_temp_def merge_entry_def combine_def single_def split: option.splits)

text \<open>
  The readings of a scan do not depend on the map they are recorded in: the scan from an
  interner either panics or yields a list of entries and a new interner, and with any
  starting map its result is that map with the entries merged in, in order.
\<close>

definition scan_result ::
  "panic + ((int32 \<times> Stat) list \<times> Intern) \<Rightarrow> statmap \<Rightarrow> panic + (statmap \<times> Intern)" where
  "scan_result r m =
     (case r of Inl e \<Rightarrow> Inl e | Inr (es, it') \<Rightarrow> Inr (foldl merge_entry m es, it'))"

lemma parseChunkIDs_from_entries:
  "\<exists>r. \<forall>m0. parseChunkIDs_from buf i m0 it = scan_result r m0"
proof -
  fix m :: statmap
  show ?thesis
  proof (induction buf i m it rule: parseChunkIDs_from.induct)
  case (1 buf i m it)
  show ?case
  proof (cases "i < length buf")
    case False
    have "\<forall>m0. parseChunkIDs_from buf i m0 it = scan_result (Inr ([], it)) m0"
      using False by (simp add: parseChunkIDs_from_end scan_result_def)
    then show ?thesis by blast
  next
    case True
    obtain s i1 ls where f: "findSemi buf i i = (s, i1, ls)" by (cases "findSemi buf i i") auto
    show ?thesis
    proof (cases s)
      case None
      have "\<forall>m0. parseChunkIDs_from buf i m0 it = scan_result (Inr ([], it)) m0"
        using parseChunkIDs_from_none [OF True, of i1 ls] f None by (simp add: scan_result_def)
      then show ?thesis by blast
    next
      case (Some semi)
      have fs: "findSemi buf i i = (Some semi, i1, ls)" using f Some by simp
      obtain tenth i2 where t: "parseTemp buf i1 = (tenth, i2)" by (cases "parseTemp buf i1") auto
      note st = parseChunkIDs_from_step [OF True fs t]
      show ?thesis
      proof (cases "slice buf ls semi")
        case (Inl e)
        have "\<forall>m0. parseChunkIDs_from buf i m0 it = scan_result (Inl e) m0"
          unfolding st Inl by (simp add: scan_result_def)
        then show ?thesis by blast
      next
        case (Inr key)
        show ?thesis
        proof (cases "GetOrAdd it key")
          case (Inl e)
          have "\<forall>m0. parseChunkIDs_from buf i m0 it = scan_result (Inl e) m0"
            unfolding st Inr sum.case Inl by (simp add: scan_result_def)
          then show ?thesis by blast
        next
          case g: (Inr rr)
          obtain cid it' where rr: "rr = (cid, it')" by (cases rr) auto
          have "\<exists>r. \<forall>m0. parseChunkIDs_from buf i2 m0 it' = scan_result r m0"
          proof (rule "1.IH" [of s "(i1, ls)" semi i1 ls tenth i2 key rr cid it'])
            show "i < length buf" by (rule True)
            show "(s, i1, ls) = findSemi buf i i" by (rule f [symmetric])
            show "s = Some semi" by (rule Some)
            show "(i1, ls) = (i1, ls)" by (rule refl)
            show "(tenth, i2) = parseTemp buf i1" by (rule t [symmetric])
            show "slice buf ls semi = Inr key" by (rule Inr)
            show "GetOrAdd it key = Inr rr" by (rule g)
            show "(cid, it') = rr" by (rule rr [symmetric])
          qed
          then obtain r where r: "\<And>m0. parseChunkIDs_from buf i2 m0 it' = scan_result r m0" by blast
          have step: "parseChunkIDs_from buf i m0 it =
                      parseChunkIDs_from buf i2 (record_temp m0 cid tenth) it'" for m0
            unfolding st Inr sum.case g rr by simp
          have "\<forall>m0. parseChunkIDs_from buf i m0 it =
                  scan_result (case r of Inl e \<Rightarrow> Inl e
                               | Inr (es, it'') \<Rightarrow> Inr ((cid, single tenth) # es, it'')) m0"
            unfolding step r
            by (simp add: scan_result_def record_temp_merge_entry split: sum.splits)
          then show ?thesis by blast
        qed
      qed
    qed
  qed
qed
qed

lemma parseChunkIDs_entries: "\<exists>r. \<forall>m0. parseChunkIDs buf m0 it = scan_result r m0"
  unfolding parseChunkIDs_def by (rule parseChunkIDs_from_entries)


text \<open>Scanning the partitions one after the other into one map.\<close>

fun scanAll :: "byte list list \<Rightarrow> statmap \<Rightarrow> Intern \<Rightarrow> panic + (statmap \<times> Intern)" where
  "scanAll [] m it = Inr (m, it)"
| "scanAll (p # ps) m it =
     (case parseChunkIDs p m it of
        Inl e \<Rightarrow> Inl e
      | Inr (m', it') \<Rightarrow> scanAll ps m' it')"

lemma parseChunkIDs_join_lf: "parseChunkIDs (join_lf ps) m it = scanAll ps m it"
proof (induction ps arbitrary: m it rule: join_lf.induct)
  case 1
  show ?case by (simp add: parseChunkIDs_Nil)
next
  case (2 p)
  show ?case by (simp split: sum.splits)
next
  case (3 p q ps)
  have "parseChunkIDs (join_lf (p # q # ps)) m it =
        (case parseChunkIDs p m it of
           Inl e \<Rightarrow> Inl e
         | Inr (m', it') \<Rightarrow> parseChunkIDs (join_lf (q # ps)) m' it')"
    using parseChunkIDs_append [of p "join_lf (q # ps)" m it] by simp
  then show ?case using 3 by (simp split: sum.splits)
qed

definition all_result ::
  "panic + ((int32 \<times> Stat) list list \<times> Intern) \<Rightarrow> statmap \<Rightarrow> panic + (statmap \<times> Intern)" where
  "all_result r m =
     (case r of Inl e \<Rightarrow> Inl e | Inr (ess, it') \<Rightarrow> Inr (foldl merge_entry m (concat ess), it'))"

definition workers_result ::
  "panic + ((int32 \<times> Stat) list list \<times> Intern) \<Rightarrow> panic + (statmap list \<times> Intern)" where
  "workers_result r =
     (case r of Inl e \<Rightarrow> Inl e | Inr (ess, it') \<Rightarrow> Inr (map (foldl merge_entry []) ess, it'))"

lemma scanAll_runWorkers:
  "\<exists>r. (\<forall>m. scanAll ps m it = all_result r m) \<and> runWorkers ps it = workers_result r"
proof (induction ps arbitrary: it)
  case Nil
  have "(\<forall>m. scanAll [] m it = all_result (Inr ([], it)) m) \<and>
        runWorkers [] it = workers_result (Inr ([], it))"
    by (simp add: all_result_def workers_result_def)
  then show ?case by blast
next
  case (Cons p ps)
  obtain r0 where r0: "\<And>m. parseChunkIDs p m it = scan_result r0 m"
    using parseChunkIDs_entries [of p it] by blast
  show ?case
  proof (cases r0)
    case (Inl e)
    have "(\<forall>m. scanAll (p # ps) m it = all_result (Inl e) m) \<and>
          runWorkers (p # ps) it = workers_result (Inl e)"
      by (simp add: r0 Inl scan_result_def all_result_def workers_result_def)
    then show ?thesis by blast
  next
    case (Inr x)
    obtain es it1 where x: "x = (es, it1)" by (cases x) auto
    from Cons.IH [of it1] obtain r where
      r: "\<And>m. scanAll ps m it1 = all_result r m" "runWorkers ps it1 = workers_result r"
      by blast
    show ?thesis
    proof (cases r)
      case e: (Inl e)
      have "(\<forall>m. scanAll (p # ps) m it = all_result (Inl e) m) \<and>
            runWorkers (p # ps) it = workers_result (Inl e)"
        by (simp add: r0 Inr x r e scan_result_def all_result_def workers_result_def)
      then show ?thesis by blast
    next
      case y: (Inr y)
      obtain ess it2 where y2: "y = (ess, it2)" by (cases y) auto
      have "(\<forall>m. scanAll (p # ps) m it = all_result (Inr (es # ess, it2)) m) \<and>
            runWorkers (p # ps) it = workers_result (Inr (es # ess, it2))"
        by (simp add: r0 Inr x r y y2 scan_result_def all_result_def workers_result_def)
      then show ?thesis by blast
    qed
  qed
qed

text \<open>Merging at the level of the mappings.\<close>

definition madd :: "(int32 \<rightharpoonup> Stat) \<Rightarrow> (int32 \<rightharpoonup> Stat) \<Rightarrow> (int32 \<rightharpoonup> Stat)" where
  "madd g h = (\<lambda>k. case h k of
                      None \<Rightarrow> g k
                    | Some s \<Rightarrow> Some (case g k of None \<Rightarrow> s | Some gs \<Rightarrow> combine gs s))"

lemma madd_empty [simp]: "madd g Map.empty = g"
  by (simp add: madd_def)

lemma madd_empty_left [simp]: "madd Map.empty h = h"
  by (auto simp: madd_def fun_eq_iff split: option.splits)

lemma madd_assoc: "madd (madd g h) j = madd g (madd h j)"
  by (auto simp: madd_def fun_eq_iff combine_assoc split: option.splits)

lemma merge_entry_map_madd: "merge_entry_map g e = madd g [fst e \<mapsto> snd e]"
  by (auto simp: merge_entry_map_def madd_def fun_eq_iff split: option.splits)

lemma fold_merge_entry_map_madd:
  "fold (\<lambda>e g. merge_entry_map g e) es g = madd g (fold (\<lambda>e g. merge_entry_map g e) es Map.empty)"
proof (induction es arbitrary: g)
  case Nil
  show ?case by simp
next
  case (Cons e es)
  let ?F = "fold (\<lambda>e g. merge_entry_map g e)"
  have "?F (e # es) Map.empty = ?F es (merge_entry_map Map.empty e)" by simp
  also have "\<dots> = madd (merge_entry_map Map.empty e) (?F es Map.empty)" by (rule Cons.IH)
  also have "merge_entry_map Map.empty e = madd Map.empty [fst e \<mapsto> snd e]"
    by (rule merge_entry_map_madd)
  also have "madd Map.empty [fst e \<mapsto> snd e] = [fst e \<mapsto> snd e]" by (rule madd_empty_left)
  finally have e2: "?F (e # es) Map.empty = madd [fst e \<mapsto> snd e] (?F es Map.empty)" .
  have "?F (e # es) g = ?F es (merge_entry_map g e)" by simp
  also have "\<dots> = madd (merge_entry_map g e) (?F es Map.empty)" by (rule Cons.IH)
  also have "merge_entry_map g e = madd g [fst e \<mapsto> snd e]" by (rule merge_entry_map_madd)
  also have "madd (madd g [fst e \<mapsto> snd e]) (?F es Map.empty) =
             madd g (madd [fst e \<mapsto> snd e] (?F es Map.empty))" by (rule madd_assoc)
  also have "madd [fst e \<mapsto> snd e] (?F es Map.empty) = ?F (e # es) Map.empty" by (rule e2 [symmetric])
  finally show ?case .
qed

lemma fold_merge_entry_map_alist:
  "distinct (map fst al) \<Longrightarrow> fold (\<lambda>e g. merge_entry_map g e) al g = madd g (map_of al)"
proof (induction al arbitrary: g)
  case Nil
  show ?case by simp
next
  case (Cons e al)
  then have n: "map_of al (fst e) = None" by (cases e) (auto simp: map_of_eq_None_iff)
  have "fold (\<lambda>e g. merge_entry_map g e) (e # al) g = madd (merge_entry_map g e) (map_of al)"
    using Cons by simp
  also have "\<dots> = madd g (map_of (e # al))"
    using n by (cases e) (auto simp: merge_entry_map_def madd_def fun_eq_iff split: option.splits)
  finally show ?case .
qed

lemma distinct_merge_entry: "distinct (map fst m) \<Longrightarrow> distinct (map fst (merge_entry m e))"
  by (cases e) (simp add: merge_entry_def distinct_update split: option.splits)

lemma distinct_foldl_merge_entry:
  "distinct (map fst m) \<Longrightarrow> distinct (map fst (foldl merge_entry m es))"
  by (induction es arbitrary: m) (simp_all add: distinct_merge_entry)

text \<open>Merging a local map built from some entries is merging the entries themselves.\<close>

lemma merge_local_entries:
  "map_of (foldl merge_entry g (foldl merge_entry [] es)) = map_of (foldl merge_entry g es)"
proof -
  let ?F = "fold (\<lambda>e g. merge_entry_map g e)"
  have d: "distinct (map fst (foldl merge_entry [] es))"
    by (rule distinct_foldl_merge_entry) simp
  have "map_of (foldl merge_entry g (foldl merge_entry [] es)) =
        madd (map_of g) (map_of (foldl merge_entry [] es))"
    by (simp add: map_of_foldl_merge_entry fold_merge_entry_map_alist [OF d])
  also have "\<dots> = madd (map_of g) (?F es Map.empty)"
    by (simp add: map_of_foldl_merge_entry)
  also have "\<dots> = ?F es (map_of g)"
    by (rule fold_merge_entry_map_madd [symmetric])
  finally show ?thesis by (simp add: map_of_foldl_merge_entry)
qed

lemma merge_locals_entries:
  "map_of (foldl (\<lambda>global m. foldl merge_entry global m) g (map (foldl merge_entry []) ess)) =
   map_of (foldl merge_entry g (concat ess))"
proof (induction ess arbitrary: g)
  case Nil
  show ?case by simp
next
  case (Cons es ess)
  let ?g1 = "foldl merge_entry g (foldl merge_entry [] es)"
  let ?g2 = "foldl merge_entry g es"
  have "map_of ?g1 = map_of ?g2" by (rule merge_local_entries)
  then have "map_of (foldl merge_entry ?g1 (concat ess)) = map_of (foldl merge_entry ?g2 (concat ess))"
    by (simp add: map_of_foldl_merge_entry)
  then show ?case using Cons.IH [of ?g1] by simp
qed


text \<open>
  When the partitions, joined by line feeds, are the input, the workers together see what
  one scan of the whole input sees: the same panic, or the same interner and local maps
  that merge to the same global mapping.
\<close>

lemma workers_scan_whole_input:
  assumes "join_lf ps = data"
  shows "case parseChunkIDs data [] newIntern of
           Inl e \<Rightarrow> runWorkers ps newIntern = Inl e
         | Inr (m, it) \<Rightarrow>
             (\<exists>locals. runWorkers ps newIntern = Inr (locals, it) \<and>
                       map_of (merge_locals locals) = map_of m)"
proof -
  obtain r where r: "\<And>m. scanAll ps m newIntern = all_result r m"
    "runWorkers ps newIntern = workers_result r"
    using scanAll_runWorkers [of ps newIntern] by blast
  have p: "parseChunkIDs data [] newIntern = all_result r []"
    using parseChunkIDs_join_lf [of ps "[]" newIntern] r(1) assms by simp
  show ?thesis
  proof (cases r)
    case (Inl e)
    then show ?thesis using p r(2) by (simp add: all_result_def workers_result_def)
  next
    case (Inr x)
    obtain ess it where x: "x = (ess, it)" by (cases x) auto
    have "map_of (merge_locals (map (foldl merge_entry []) ess)) =
          map_of (foldl merge_entry [] (concat ess))"
      unfolding merge_locals_def by (rule merge_locals_entries)
    then show ?thesis using p r(2) Inr x by (simp add: all_result_def workers_result_def)
  qed
qed

lemma emit_set:
  "map_sum id set (emit it al) =
     (if \<forall>e \<in> set al. 0 \<le> sint (fst e) \<and> nat (sint (fst e)) < length (names it)
      then Inr ((\<lambda>e. (names it ! nat (sint (fst e)), snd e)) ` set al)
      else Inl IndexOutOfRange)"
proof (induction al)
  case Nil
  show ?case by simp
next
  case (Cons e al)
  obtain c s where e: "e = (c, s)" by (cases e) auto
  show ?case
  proof (cases "emit it al")
    case (Inl x)
    then show ?thesis using Cons by (auto simp: e Name_def split: if_splits)
  next
    case (Inr out)
    then show ?thesis using Cons by (auto simp: e Name_def split: if_splits)
  qed
qed

lemma distinct_merge_locals: "distinct (map fst (merge_locals ls))"
proof -
  have "distinct (map fst g) \<Longrightarrow>
        distinct (map fst (foldl (\<lambda>global m. foldl merge_entry global m) g ls))" for g
    by (induction ls arbitrary: g) (simp_all add: distinct_foldl_merge_entry)
  then show ?thesis by (simp add: merge_locals_def)
qed

lemma emit_same_mapping:
  assumes "map_of (merge_locals ls) = map_of (merge_locals ls')"
  shows "map_sum id set (emit it (merge_locals ls)) = map_sum id set (emit it (merge_locals ls'))"
proof -
  have "set (merge_locals ls) = set (merge_locals ls')"
    using assms distinct_merge_locals [of ls] distinct_merge_locals [of ls']
    by (simp add: map_of_inject_set)
  then show ?thesis by (simp add: emit_set)
qed

text \<open>
  Where every worker after the first finds a line feed inside its own naive chunk, the
  run with that many workers and the run with one worker give the same outcome: the same
  panic, or the same set of records.
\<close>

theorem pipeline_workers_agree:
  assumes w: "0 < workers"
    and lf: "\<forall>i. 0 < i \<and> i < workers \<longrightarrow>
               (\<exists>p. i * (length data div workers) \<le> p \<and>
                    p < (if i = workers - 1 then length data
                         else (i + 1) * (length data div workers)) \<and>
                    data ! p = 10)"
  shows "map_sum id set (pipeline data workers) = map_sum id set (pipeline data 1)"
proof -
  from partitions_tile [OF w lf] obtain ps where
    ps: "partitions data workers = Inr ps" "join_lf ps = data" by blast
  have one: "partitions data 1 = Inr [data]" "join_lf [data] = data"
    using partitions_one [of data] by simp_all
  note a = workers_scan_whole_input [OF ps(2)]
  note b = workers_scan_whole_input [OF one(2)]
  show ?thesis
  proof (cases "parseChunkIDs data [] newIntern")
    case (Inl e)
    then show ?thesis using a b w ps(1) partitions_one [of data] by (simp add: pipeline_def)
  next
    case (Inr x)
    obtain m it where x: "x = (m, it)" by (cases x) auto
    from a Inr x obtain locals where l: "runWorkers ps newIntern = Inr (locals, it)"
      "map_of (merge_locals locals) = map_of m" by auto
    from b Inr x obtain locals' where l': "runWorkers [data] newIntern = Inr (locals', it)"
      "map_of (merge_locals locals') = map_of m" by auto
    have "map_sum id set (emit it (merge_locals locals)) =
          map_sum id set (emit it (merge_locals locals'))"
      using l(2) l'(2) by (intro emit_same_mapping) simp
    then show ?thesis
      using w ps(1) partitions_one [of data] l(1) l'(1) by (simp add: pipeline_def)
  qed
qed

section \<open>Runs on concrete inputs\<close>

text \<open>
  C1 (the run with several workers gives the result of the sequential run, also with more
  workers than lines). On the one-line file \<open>AB;1\<close> the run with one worker reports the key
  \<open>AB\<close> once; the run with four workers also reports an empty key with the same value,
  because the second worker is handed the bytes \<open>;1\<close> from the middle of the line. On the
  one-line file \<open>A;1\<close> the run with eight workers counts the line seven times, because
  \<open>chunk\<close> is 0 and the first seven workers are all handed the whole line.
\<close>

theorem C1_four_workers_differ:
  "main 1 (Some (bytes ''AB;1\<newline>'')) =
     Inr [(bytes ''AB'', \<lparr>min_stat = 10, max_stat = 10, sum_stat = 10, count_stat = 1\<rparr>)] \<and>
   main 4 (Some (bytes ''AB;1\<newline>'')) =
     Inr [(bytes ''AB'', \<lparr>min_stat = 10, max_stat = 10, sum_stat = 10, count_stat = 1\<rparr>),
          ([], \<lparr>min_stat = 10, max_stat = 10, sum_stat = 10, count_stat = 1\<rparr>)] \<and>
   main 1 (Some (bytes ''A;1\<newline>'')) =
     Inr [(bytes ''A'', \<lparr>min_stat = 10, max_stat = 10, sum_stat = 10, count_stat = 1\<rparr>)] \<and>
   main 8 (Some (bytes ''A;1\<newline>'')) =
     Inr [(bytes ''A'', \<lparr>min_stat = 10, max_stat = 10, sum_stat = 70, count_stat = 7\<rparr>)]"
  by code_simp

text \<open>
  C9 (every partition but the first starts right after a line feed). With four workers on
  \<open>AB;1\<close> the second worker's range is \<open>[2, 4)\<close>, not empty, and the byte before it is
  \<open>B\<close> (66), not the line feed (10).
\<close>

theorem C9_partition_starts_inside_line:
  "chunkBounds (bytes ''AB;1\<newline>'') 4 1 = Inr (2, 4) \<and>
   chunkSlice (bytes ''AB;1\<newline>'') 4 1 = Inr (bytes '';1'') \<and>
   bytes ''AB;1\<newline>'' ! (2 - 1) = 66"
  by code_simp

text \<open>
  C7, as stated (an empty input makes the run fail with an error): on the empty file the
  run with four processors returns normally with no record.
\<close>

theorem C7_empty_input_counterexample:
  "main 4 (Some []) = Inr [] \<and> main 4 (Some []) \<noteq> Inl InputAccessError"
  by code_simp

text \<open>
  C7, amended: on an empty input the run returns at once, without an error and without
  any record, whatever the number of processors; a file that cannot be opened or mapped
  ends the run with a panic.
\<close>

theorem C7_empty_input_returns:
  "main nCPU (Some []) = Inr [] \<and> main nCPU None = Inl InputAccessError"
  by (simp add: main_def)

text \<open>
  C6, as stated (the partitions, concatenated in order, are the input): with two workers
  on \<open>A;1\<close>, \<open>B;2\<close> the ranges are \<open>[0, 7)\<close> and \<open>[8, 8)\<close>; the line feed at index 7 is in
  neither, so the concatenation lacks the last byte.
\<close>

theorem C6_concat_counterexample:
  "partitions (bytes ''A;1\<newline>B;2\<newline>'') 2 = Inr [bytes ''A;1\<newline>B;2'', []] \<and>
   concat [bytes ''A;1\<newline>B;2'', []] \<noteq> bytes ''A;1\<newline>B;2\<newline>''"
  by code_simp

text \<open>
  C4, as stated (a line with an unparsable value is skipped and contributes nothing): the
  line \<open>C;notanumber\<close> between two valid lines is recorded under the key \<open>C\<close> with the
  value 0 and the count 1.
\<close>

theorem C4_unparsable_value_counterexample:
  "main 1 (Some (bytes ''A;1.0\<newline>C;notanumber\<newline>B;2.0\<newline>'')) =
     Inr [(bytes ''A'', \<lparr>min_stat = 10, max_stat = 10, sum_stat = 10, count_stat = 1\<rparr>),
          (bytes ''C'', \<lparr>min_stat = 0, max_stat = 0, sum_stat = 0, count_stat = 1\<rparr>),
          (bytes ''B'', \<lparr>min_stat = 20, max_stat = 20, sum_stat = 20, count_stat = 1\<rparr>)]"
  by code_simp

end
